theory Spec2Isabelle
  imports Complex_Main "HOL-Library.Sublist"
begin

section \<open>The upload engine of HFS: data model\<close>

text \<open>
  The embedded code is the upload part of the front end in \<open>src/admin/src/mui.ts\<close>
  (the functions around \<open>uploadState\<close>: \<open>enqueue\<close>, \<open>simulateBrowserAccept\<close>,
  \<open>startUpload\<close> with its inner functions, the queue subscriber and the queue actions
  of \<open>showUpload\<close>).

  A browser \<open>File\<close> is a name, a relative path (empty unless the file comes from a
  folder picker), a declared MIME type and its bytes; \<open>File.size\<close> is the number of
  bytes. Strings are byte strings here, which agrees with JavaScript on ASCII text.
\<close>

record File =
  name :: string
  webkitRelativePath :: string
  ftype :: string
  content :: "nat list"

definition fsize :: "File \<Rightarrow> nat" where
  "fsize f = length (content f)"

text \<open>
  \<open>interface ToUpload { file: File, comment?: string }\<close>. The code compares these
  objects by reference (\<open>f === uploadState.uploading\<close>, \<open>_.pull\<close>); the field \<open>oid\<close>
  stands for the identity of the object, so that equality of records is equality of
  references as long as distinct objects carry distinct \<open>oid\<close>s. \<open>ufile\<close> is the
  field \<open>file\<close>.
\<close>

record ToUpload =
  oid :: nat
  ufile :: File
  comment :: "string option"

text \<open>One element of \<open>uploadState.qs\<close>: \<open>{ to: string, entries: ToUpload[] }\<close>.\<close>

record queue =
  to :: string
  entries :: "ToUpload list"

subsection \<open>Paths\<close>

text \<open>\<open>String.prototype.replaceAll('//', '/')\<close>: left to right, without overlaps.\<close>

fun replaceAll_slashes :: "string \<Rightarrow> string" where
  "replaceAll_slashes (a # b # cs) =
     (if a = CHR ''/'' \<and> b = CHR ''/'' then CHR ''/'' # replaceAll_slashes cs
      else a # replaceAll_slashes (b # cs))"
| "replaceAll_slashes cs = cs"

text \<open>
  Modelled from the spec: \<open>prefix\<close> is imported from \<open>./misc\<close>, which is not among the
  sources. Its uses (\<open>prefix(': ', specifier)\<close>, \<open>prefix('', pre, '/')\<close>) wrap a value that
  is present between the two affixes and give the empty string for a value that is
  absent or empty; the relative path of the spec is what remains for the default
  \<open>pre = ''\<close>.
\<close>

definition prefix_str :: "string \<Rightarrow> string \<Rightarrow> string \<Rightarrow> string" where
  "prefix_str pre v post = (if v = [] then [] else pre @ v @ post)"

text \<open>
  \<open>function path(f, pre='') { return (prefix('', pre, '/') + (f.webkitRelativePath || f.name)).replaceAll('//','/') }\<close>
\<close>

definition path_pre :: "File \<Rightarrow> string \<Rightarrow> string" where
  "path_pre f pre =
     replaceAll_slashes (prefix_str [] pre ''/'' @
       (if webkitRelativePath f \<noteq> [] then webkitRelativePath f else name f))"

definition path :: "File \<Rightarrow> string" where
  "path f = path_pre f []"

section \<open>The accept policy\<close>

subsection \<open>The regular expressions the policy is compiled to\<close>

text \<open>
  \<open>f.type.match(s)\<close> with a string \<open>s\<close> builds \<open>new RegExp(s)\<close> and searches for a match
  anywhere in \<open>f.type\<close>. The fragment of the pattern language modelled here is: an
  ordinary character, the wildcard \<open>.\<close>, the escape \<open>\.\<close> (which is what the code inserts),
  each followed by at most one of the quantifiers \<open>*\<close>, \<open>+\<close>, \<open>?\<close>. Any other pattern
  (groups, classes, anchors, braces, lazy quantifiers, other escapes, a quantifier
  with nothing to repeat) is outside the fragment: \<open>RegExp_fragment\<close> gives \<open>None\<close> for
  it, which says nothing on whether the pattern is a valid one. What the browser
  does with such a pattern is not computed here but taken as a parameter, the
  \<open>runtime\<close>: \<open>rt s pattern\<close> is \<open>None\<close> when \<open>s.match(pattern)\<close> throws a \<open>SyntaxError\<close>, and
  otherwise says whether there is a match. Every property below holds for every
  runtime, and \<open>enqueue\<close> carries the one it runs in.
\<close>

type_synonym runtime = "string \<Rightarrow> string \<Rightarrow> bool option"

datatype atom = Lit char | Dot

datatype quant = One | Star | Plus | Opt

type_synonym regexp = "(atom \<times> quant) list"

definition syntax_chars :: "char set" where
  "syntax_chars = set (CHR 0x5C # ''^$.*+?()[]{}|'')"

definition quant_of :: "char \<Rightarrow> quant option" where
  "quant_of c =
     (if c = CHR ''*'' then Some Star
      else if c = CHR ''+'' then Some Plus
      else if c = CHR ''?'' then Some Opt
      else None)"

datatype token = Atom atom | Quant quant

fun tokens :: "string \<Rightarrow> token list option" where
  "tokens [] = Some []"
| "tokens (c # cs) =
     (if c = CHR 0x5C then
        (case cs of
           [] \<Rightarrow> None
         | d # ds \<Rightarrow> if d = CHR ''.'' then map_option ((#) (Atom (Lit d))) (tokens ds) else None)
      else if c = CHR ''.'' then map_option ((#) (Atom Dot)) (tokens cs)
      else (case quant_of c of
              Some k \<Rightarrow> map_option ((#) (Quant k)) (tokens cs)
            | None \<Rightarrow>
                if c \<in> syntax_chars then None
                else map_option ((#) (Atom (Lit c))) (tokens cs)))"

fun group :: "token list \<Rightarrow> regexp option" where
  "group [] = Some []"
| "group (Atom a # Quant k # ts) = map_option ((#) (a, k)) (group ts)"
| "group (Atom a # ts) = map_option ((#) (a, One)) (group ts)"
| "group (Quant k # ts) = None"

definition RegExp_fragment :: "string \<Rightarrow> regexp option" where
  "RegExp_fragment pattern = (case tokens pattern of None \<Rightarrow> None | Some ts \<Rightarrow> group ts)"

text \<open>The wildcard matches every character but a line terminator.\<close>

fun atom_matches :: "atom \<Rightarrow> char \<Rightarrow> bool" where
  "atom_matches (Lit x) c = (c = x)"
| "atom_matches Dot c = (c \<noteq> CHR 0x0A \<and> c \<noteq> CHR 0x0D)"

text \<open>\<open>matches_at r s\<close>: some prefix of \<open>s\<close> matches \<open>r\<close>.\<close>

fun matches_at :: "regexp \<Rightarrow> string \<Rightarrow> bool" where
  "matches_at [] s = True"
| "matches_at ((a, One) # r) [] = False"
| "matches_at ((a, One) # r) (c # cs) = (atom_matches a c \<and> matches_at r cs)"
| "matches_at ((a, Opt) # r) [] = matches_at r []"
| "matches_at ((a, Opt) # r) (c # cs) =
     ((atom_matches a c \<and> matches_at r cs) \<or> matches_at r (c # cs))"
| "matches_at ((a, Star) # r) [] = matches_at r []"
| "matches_at ((a, Star) # r) (c # cs) =
     ((atom_matches a c \<and> matches_at ((a, Star) # r) cs) \<or> matches_at r (c # cs))"
| "matches_at ((a, Plus) # r) [] = False"
| "matches_at ((a, Plus) # r) (c # cs) =
     (atom_matches a c \<and> matches_at ((a, Star) # r) cs)"

text \<open>Is there a match at any position?\<close>

fun search :: "regexp \<Rightarrow> string \<Rightarrow> bool" where
  "search r [] = matches_at r []"
| "search r (c # cs) = (matches_at r (c # cs) \<or> search r cs)"

text \<open>
  \<open>s.match(pattern)\<close>, read as a truth value: computed for a pattern of the fragment
  (none of them throws), and the answer of the runtime for any other pattern.
\<close>

definition str_match :: "runtime \<Rightarrow> string \<Rightarrow> string \<Rightarrow> bool option" where
  "str_match rt s pattern =
     (case RegExp_fragment pattern of None \<Rightarrow> rt s pattern | Some r \<Rightarrow> Some (search r s))"

subsection \<open>\<open>normalizeAccept\<close> and \<open>simulateBrowserAccept\<close>\<close>

text \<open>\<open>String.prototype.replace(c, r)\<close> with a one-character string \<open>c\<close>: the first occurrence only.\<close>

fun replace_first :: "char \<Rightarrow> string \<Rightarrow> string \<Rightarrow> string" where
  "replace_first x r [] = []"
| "replace_first x r (c # cs) = (if c = x then r @ cs else c # replace_first x r cs)"

text \<open>
  \<open>function normalizeAccept(accept?: string) { return accept?.replace(/\|/g, ',').replace(/ +/g, '') }\<close>
\<close>

definition normalizeAccept :: "string \<Rightarrow> string" where
  "normalizeAccept accept =
     filter (\<lambda>c. c \<noteq> CHR '' '')
       (map (\<lambda>c. if c = CHR ''|'' then CHR '','' else c) accept)"

text \<open>
  \<open>split(/ *[|,] */)\<close>: the string is cut at every \<open>|\<close> and \<open>,\<close>; a separator takes the
  spaces around it with it, so a piece loses its trailing spaces when a separator
  follows it and its leading spaces when a separator precedes it.
\<close>

fun cut :: "string \<Rightarrow> string \<Rightarrow> string list" where
  "cut acc [] = [rev acc]"
| "cut acc (c # cs) =
     (if c = CHR ''|'' \<or> c = CHR '','' then rev acc # cut [] cs else cut (c # acc) cs)"

definition trim_left :: "string \<Rightarrow> string" where
  "trim_left s = dropWhile (\<lambda>c. c = CHR '' '') s"

definition trim_right :: "string \<Rightarrow> string" where
  "trim_right s = rev (trim_left (rev s))"

fun trim_pieces :: "bool \<Rightarrow> string list \<Rightarrow> string list" where
  "trim_pieces first [] = []"
| "trim_pieces first [p] = [if first then p else trim_left p]"
| "trim_pieces first (p # q # ps) =
     trim_right (if first then p else trim_left p) # trim_pieces False (q # ps)"

definition split_accept :: "string \<Rightarrow> string list" where
  "split_accept s = trim_pieces True (cut [] s)"

text \<open>
  The test of one pattern:
  \<open>pattern.startsWith('.') ? f.name.endsWith(pattern) : f.type.match(pattern.replace('.','\\.').replace('*', '.*'))\<close>
\<close>

definition pattern_regexp :: "string \<Rightarrow> string" where
  "pattern_regexp pattern =
     replace_first (CHR ''*'') ''.*'' (replace_first (CHR ''.'') [CHR 0x5C, CHR ''.''] pattern)"

definition pattern_test :: "runtime \<Rightarrow> File \<Rightarrow> string \<Rightarrow> bool option" where
  "pattern_test rt f pattern =
     (if prefix ''.'' pattern then Some (suffix pattern (name f))
      else str_match rt (ftype f) (pattern_regexp pattern))"

text \<open>\<open>Array.prototype.some\<close>: stops at the first pattern that passes; a pattern that throws ends it.\<close>

fun some :: "('a \<Rightarrow> bool option) \<Rightarrow> 'a list \<Rightarrow> bool option" where
  "some t [] = Some False"
| "some t (p # ps) =
     (case t p of None \<Rightarrow> None | Some True \<Rightarrow> Some True | Some False \<Rightarrow> some t ps)"

text \<open>
  \<open>simulateBrowserAccept\<close>; the argument \<open>accept\<close> is \<open>state.props?.accept\<close>, which may be
  undefined.
\<close>

definition simulateBrowserAccept :: "runtime \<Rightarrow> string option \<Rightarrow> File \<Rightarrow> bool option" where
  "simulateBrowserAccept rt accept f =
     (case accept of
        None \<Rightarrow> Some True
      | Some a \<Rightarrow>
          if a = [] then Some True
          else some (pattern_test rt f) (split_accept (normalizeAccept a)))"

section \<open>The shared state\<close>

text \<open>
  JavaScript numbers that come out of a division: the quotient of two byte counts is
  kept as an exact fraction (the rounding of the floating-point division is not
  modelled), and a division by zero gives \<open>Infinity\<close> or \<open>NaN\<close> as it does in JavaScript.
\<close>

datatype jsnum = Num rat | Infinity | NaN

definition js_div :: "nat \<Rightarrow> nat \<Rightarrow> jsnum" where
  "js_div a b =
     (if b = 0 then (if a = 0 then NaN else Infinity) else Num (of_nat a / of_nat b))"

text \<open>
  Modelled from the spec: \<open>HTTP_CONFLICT\<close> and \<open>HTTP_PAYLOAD_TOO_LARGE\<close> are imported
  from \<open>./misc\<close>, which is not among the sources; they are the "conflict" and the
  "payload too large" status of HTTP.
\<close>

definition HTTP_CONFLICT :: nat where
  "HTTP_CONFLICT = 409"

definition HTTP_PAYLOAD_TOO_LARGE :: nat where
  "HTTP_PAYLOAD_TOO_LARGE = 413"

text \<open>
  One run of \<open>startUpload(toUpload, to, resume)\<close>: its parameters, its local variables
  \<open>resuming\<close> and \<open>lastProgress\<close>, which the handlers defined inside it share and update,
  and the request it sent: the query (\<open>notificationChannel\<close>, \<open>resume\<close> is \<open>c_resume\<close>,
  \<open>comment\<close>, \<open>skipExisting\<close>) and the one part of the form, \<open>toUpload.file.slice(resume)\<close>
  under the name \<open>path(toUpload.file)\<close>.
\<close>

record call =
  c_toUpload :: ToUpload
  c_to :: string
  c_resume :: nat
  resuming :: bool
  lastProgress :: nat
  sent_channel :: string
  sent_comment :: string
  sent_skipExisting :: bool
  sent_body :: "nat list"
  sent_filename :: string

text \<open>
  A resume confirmation that waits for its answer (\<open>await dialog\<close>): the run of
  \<open>startUpload\<close> whose handler asked, and the handler's locals \<open>uploading\<close> and \<open>size\<close>.
\<close>

record offer =
  o_handler :: nat
  o_uploading :: ToUpload
  o_size :: nat

text \<open>What the user gets to see, and the requests to reload the file list.\<close>

datatype effect =
    AlertRejected
  | AlertError ToUpload bool
  | ConfirmResume nat nat
  | AlertConcluded
  | AlertPauseHint
  | ReloadListLater
  | ReloadList
  | CloseLast

text \<open>
  \<open>uploadState\<close> and the variables of the module. \<open>done_count\<close> is the field \<open>done\<close>.
  \<open>calls\<close> holds the runs of \<open>startUpload\<close>, so that a run is known by its index;
  \<open>req\<close> is the run that created the current \<open>XMLHttpRequest\<close>, and \<open>req_live\<close> says
  that this request was sent and its \<open>loadend\<close> has not been delivered yet.
  \<open>handler\<close> is the run whose closure \<open>getNotification\<close> was given: it is set together
  with \<open>notificationChannel\<close> and dropped when the source is closed.
  \<open>closeLast\<close> says whether the variable holds a function. \<open>outcomes\<close> records, for
  each completed request, the run and the status its \<open>onloadend\<close> acted on.
  The fields \<open>adding\<close>, \<open>speed\<close> and \<open>eta\<close> and the sampling timer are left out.
\<close>

record upload_state =
  done_count :: nat
  doneByte :: nat
  errors :: nat
  qs :: "queue list"
  paused :: bool
  uploading :: "ToUpload option"
  progress :: jsnum
  partial :: nat
  skipExisting :: bool
  bytesSent :: int
  reloadOnClose :: bool
  uploadDialogIsOpen :: bool
  everPaused :: bool
  req :: "nat option"
  req_live :: bool
  overrideStatus :: nat
  notificationChannel :: string
  handler :: "nat option"
  closeLast :: bool
  calls :: "call list"
  offers :: "offer list"
  outcomes :: "(nat \<times> nat) list"
  log :: "effect list"

definition init :: upload_state where
  "init = \<lparr>done_count = 0, doneByte = 0, errors = 0, qs = [], paused = False,
     uploading = None, progress = Num 0, partial = 0, skipExisting = False,
     bytesSent = 0, reloadOnClose = False, uploadDialogIsOpen = False, everPaused = False,
     req = None, req_live = False, overrideStatus = 0, notificationChannel = [],
     handler = None, closeLast = False, calls = [], offers = [], outcomes = [], log = []\<rparr>"

definition emit :: "effect list \<Rightarrow> upload_state \<Rightarrow> upload_state" where
  "emit es s = s\<lparr>log := log s @ es\<rparr>"

text \<open>\<open>closeLast?.()\<close>\<close>

definition close_last :: "upload_state \<Rightarrow> upload_state" where
  "close_last s = (if closeLast s then emit [CloseLast] s else s)"

definition resetCounters :: "upload_state \<Rightarrow> upload_state" where
  "resetCounters s = s\<lparr>errors := 0, done_count := 0, doneByte := 0\<rparr>"

section \<open>\<open>enqueue\<close>\<close>

text \<open>\<open>_.uniqBy(entries, x => path(x.file))\<close>: the first entry of each path.\<close>

fun uniqBy_path :: "string list \<Rightarrow> ToUpload list \<Rightarrow> ToUpload list" where
  "uniqBy_path seen [] = []"
| "uniqBy_path seen (x # xs) =
     (if path (ufile x) \<in> set seen then uniqBy_path seen xs
      else x # uniqBy_path (path (ufile x) # seen) xs)"

text \<open>\<open>_.differenceBy(entries, q.entries, x => path(x.file))\<close>\<close>

definition differenceBy_path :: "ToUpload list \<Rightarrow> ToUpload list \<Rightarrow> ToUpload list" where
  "differenceBy_path es old =
     filter (\<lambda>x. path (ufile x) \<notin> set (map (\<lambda>y. path (ufile y)) old)) es"

text \<open>
  \<open>_.find(uploadState.qs, { to })\<close> followed by \<open>q.entries.push(...missing)\<close>: the first
  queue of that destination gets the new entries; \<open>None\<close> when there is no such queue.
\<close>

fun push_to :: "string \<Rightarrow> ToUpload list \<Rightarrow> queue list \<Rightarrow> queue list option" where
  "push_to t es [] = None"
| "push_to t es (q # rest) =
     (if to q = t then Some (q\<lparr>entries := entries q @ differenceBy_path es (entries q)\<rparr> # rest)
      else map_option ((#) q) (push_to t es rest))"

text \<open>
  The tests of \<open>_.remove(entries, x => !simulateBrowserAccept(x.file))\<close>, one per entry;
  \<open>None\<close> when a test throws.
\<close>

fun accept_all :: "runtime \<Rightarrow> string option \<Rightarrow> ToUpload list \<Rightarrow> bool list option" where
  "accept_all rt accept [] = Some []"
| "accept_all rt accept (x # xs) =
     (case simulateBrowserAccept rt accept (ufile x) of
        None \<Rightarrow> None
      | Some b \<Rightarrow> map_option ((#) b) (accept_all rt accept xs))"

text \<open>
  \<open>enqueue(entries)\<close>, with the runtime, \<open>state.props?.accept\<close> and \<open>location.pathname\<close>
  as arguments. The result is \<open>None\<close> when a test of the accept policy throws: nothing has been
  changed by then. When entries were rejected, the function waits for the alert to
  be closed before it goes on; the queue it then works on is the one of that later
  moment, and \<open>s\<close> is the state of that moment.
\<close>

definition enqueue ::
  "runtime \<Rightarrow> string option \<Rightarrow> string \<Rightarrow> ToUpload list \<Rightarrow> upload_state \<Rightarrow> upload_state option" where
  "enqueue rt accept pathname es s =
     (case accept_all rt accept es of
        None \<Rightarrow> None
      | Some oks \<Rightarrow>
          let s1 = (if False \<in> set oks then emit [AlertRejected] s else s);
              kept = uniqBy_path [] (map fst (filter snd (zip es oks)))
          in if kept = [] then Some s1
             else (case push_to pathname kept (qs s1) of
                     None \<Rightarrow> Some (s1\<lparr>qs := qs s1 @ [\<lparr>to = pathname, entries = kept\<rparr>]\<rparr>)
                   | Some qs' \<Rightarrow> Some (s1\<lparr>qs := qs'\<rparr>)))"

section \<open>One transfer: \<open>startUpload\<close> and its handlers\<close>

text \<open>
  \<open>startUpload(toUpload, to, resume)\<close>. \<open>rnd\<close> is the text that \<open>Math.random\<close> contributes
  to a new channel name. The function waits for \<open>subscribeNotifications\<close> before it
  creates and sends the request; it is modelled as one step, that is, no other event
  is handled while it waits.
\<close>

definition startUpload :: "string \<Rightarrow> ToUpload \<Rightarrow> string \<Rightarrow> nat \<Rightarrow> upload_state \<Rightarrow> upload_state" where
  "startUpload rnd toUpload t resume s =
     (let i = length (calls s);
          subscribed = (notificationChannel s \<noteq> []);
          channel = (if subscribed then notificationChannel s else ''upload-'' @ rnd);
          c = \<lparr>c_toUpload = toUpload, c_to = t, c_resume = resume, resuming = False,
               lastProgress = 0, sent_channel = channel,
               sent_comment = (case comment toUpload of None \<Rightarrow> [] | Some x \<Rightarrow> x),
               sent_skipExisting = skipExisting s,
               sent_body = drop resume (content (ufile toUpload)),
               sent_filename = path (ufile toUpload)\<rparr>
      in s\<lparr>overrideStatus := 0, uploading := Some toUpload,
           notificationChannel := channel,
           handler := (if subscribed then handler s else Some i),
           req := Some i, req_live := True, calls := calls s @ [c]\<rparr>)"

text \<open>The inner function \<open>error(status)\<close> of run \<open>i\<close>.\<close>

definition error :: "nat \<Rightarrow> nat \<Rightarrow> upload_state \<Rightarrow> upload_state" where
  "error i status s =
     (let s1 = s\<lparr>errors := errors s + 1\<rparr>
      in if errors s \<noteq> 0 then s1
         else (emit [AlertError (c_toUpload (calls s ! i)) (status = HTTP_PAYLOAD_TOO_LARGE)]
                 (close_last s1))\<lparr>closeLast := True\<rparr>)"

text \<open>The inner function \<open>done()\<close> of run \<open>i\<close>.\<close>

definition done_ok :: "nat \<Rightarrow> upload_state \<Rightarrow> upload_state" where
  "done_ok i s =
     s\<lparr>done_count := done_count s + 1,
       doneByte := doneByte s + fsize (ufile (c_toUpload (calls s ! i))),
       reloadOnClose := True\<rparr>"

text \<open>
  What \<open>qs[0].entries.shift()\<close> and the pruning \<open>if (!qs[0].entries.length) qs.shift()\<close>
  leave of a queue list that is not empty.
\<close>

definition shift_head :: "queue list \<Rightarrow> queue list" where
  "shift_head xs =
     (case xs of
        [] \<Rightarrow> []
      | q # rest \<Rightarrow> if tl (entries q) = [] then rest else q\<lparr>entries := tl (entries q)\<rparr> # rest)"

text \<open>
  The inner function \<open>next()\<close>. The counters are reset when the alert it may show is
  closed, which is a later event.
\<close>

definition next_item :: "upload_state \<Rightarrow> upload_state" where
  "next_item s =
     (let s1 = s\<lparr>uploading := None, partial := 0\<rparr>
      in if qs s1 = [] then s1
         else let s2 = s1\<lparr>qs := shift_head (qs s1)\<rparr>
              in if qs s2 \<noteq> [] then s2
                 else emit (ReloadListLater # (if uploadDialogIsOpen s2 then [] else [AlertConcluded]))
                        (s2\<lparr>reloadOnClose := False\<rparr>))"

text \<open>
  \<open>req.onloadend\<close> of run \<open>i\<close>; \<open>readyState\<close> and \<open>status\<close> are those of the module's \<open>req\<close>.
\<close>

definition onloadend :: "nat \<Rightarrow> nat \<Rightarrow> nat \<Rightarrow> upload_state \<Rightarrow> upload_state" where
  "onloadend i readyState req_status s =
     (if readyState \<noteq> 4 then s
      else let status = (if overrideStatus s \<noteq> 0 then overrideStatus s else req_status);
               s1 = close_last (s\<lparr>outcomes := outcomes s @ [(i, status)]\<rparr>);
               s2 = (if status \<noteq> 0 \<and> status \<noteq> HTTP_CONFLICT
                     then (if status \<ge> 400 then error i status s1 else done_ok i s1)
                     else s1)
           in if \<not> resuming (calls s2 ! i) then next_item s2 else s2)"

text \<open>\<open>req.onerror = () => error(0)\<close>\<close>

definition onerror :: "nat \<Rightarrow> upload_state \<Rightarrow> upload_state" where
  "onerror i s = error i 0 s"

text \<open>\<open>req.upload.onprogress\<close> of run \<open>i\<close>, for an event with \<open>e.loaded\<close> and \<open>e.total\<close> (\<open>tot\<close>).\<close>

definition onprogress :: "nat \<Rightarrow> nat \<Rightarrow> nat \<Rightarrow> upload_state \<Rightarrow> upload_state" where
  "onprogress i loaded tot s =
     (let c = calls s ! i;
          p = loaded + c_resume c
      in s\<lparr>partial := p,
           progress := js_div p (tot + c_resume c),
           bytesSent := bytesSent s + (int loaded - int (lastProgress c)),
           calls := (calls s)[i := c\<lparr>lastProgress := loaded\<rparr>]\<rparr>)"

text \<open>
  \<open>abortCurrentUpload\<close>: \<open>req?.abort()\<close>. Aborting a request that is under way delivers
  its \<open>loadend\<close> at once, with \<open>readyState\<close> 4 and status 0; aborting a request that has
  completed delivers nothing.
\<close>

definition abortCurrentUpload :: "upload_state \<Rightarrow> upload_state" where
  "abortCurrentUpload s =
     (case req s of
        None \<Rightarrow> s
      | Some i \<Rightarrow> if req_live s then onloadend i 4 0 (s\<lparr>req_live := False\<rparr>) else s)"

section \<open>The notification handler\<close>

text \<open>
  The callback that \<open>subscribeNotifications\<close> gives to \<open>getNotification\<close> is a closure of
  the run \<open>h\<close> of \<open>startUpload\<close> that subscribed: its \<open>toUpload\<close>, \<open>to\<close> and \<open>resuming\<close> are
  those of run \<open>h\<close>, whatever is uploading when a message arrives. \<open>data\<close> maps relative
  paths to numbers; a missing key reads as \<open>undefined\<close>, which the code treats like 0.

  For \<open>upload.resumable\<close> the callback runs up to \<open>await dialog\<close>: the confirmation is
  shown and the offer waits for its answer.
\<close>

definition on_resumable :: "nat \<Rightarrow> (string \<times> nat) list \<Rightarrow> ToUpload \<Rightarrow> upload_state \<Rightarrow> upload_state" where
  "on_resumable h data up s =
     (case map_of data (path (ufile up)) of
        None \<Rightarrow> s
      | Some sz \<Rightarrow>
          let toUpload = c_toUpload (calls s ! h)
          in if sz = 0 \<or> sz > fsize (ufile toUpload) then s
             else (emit [ConfirmResume sz (fsize (ufile toUpload))] (close_last s))
                    \<lparr>closeLast := True,
                     offers := offers s @ [\<lparr>o_handler = h, o_uploading = up, o_size = sz\<rparr>]\<rparr>)"

definition on_status :: "(string \<times> nat) list \<Rightarrow> ToUpload \<Rightarrow> upload_state \<Rightarrow> upload_state" where
  "on_status data up s =
     (let s1 = s\<lparr>overrideStatus := (case map_of data (path (ufile up)) of None \<Rightarrow> 0 | Some v \<Rightarrow> v)\<rparr>
      in if overrideStatus s1 \<ge> 400 then abortCurrentUpload s1 else s1)"

definition onNotification :: "nat \<Rightarrow> string \<Rightarrow> (string \<times> nat) list \<Rightarrow> upload_state \<Rightarrow> upload_state" where
  "onNotification h ev data s =
     (case uploading s of
        None \<Rightarrow> s
      | Some up \<Rightarrow>
          if ev = ''upload.resumable'' then on_resumable h data up s
          else if ev = ''upload.status'' then on_status data up s
          else s)"

text \<open>
  The rest of the callback, once the confirmation of an offer is answered (a
  dismissed or expired confirmation answers \<open>False\<close>):
  \<open>if (!confirmed) return; if (uploading !== uploadState.uploading) return;
    resuming = true; abortCurrentUpload(); return startUpload(toUpload, to, size)\<close>
\<close>

definition resume_answer :: "string \<Rightarrow> offer \<Rightarrow> bool \<Rightarrow> upload_state \<Rightarrow> upload_state" where
  "resume_answer rnd off confirmed s =
     (if \<not> confirmed then s
      else if uploading s \<noteq> Some (o_uploading off) then s
      else let h = o_handler off;
               c = calls s ! h;
               s1 = s\<lparr>calls := (calls s)[h := c\<lparr>resuming := True\<rparr>]\<rparr>
           in startUpload rnd (c_toUpload c) (c_to c) (o_size off) (abortCurrentUpload s1))"

section \<open>The queue\<close>

text \<open>
  The function subscribed to \<open>uploadState\<close>, which runs after the state has changed:
  \<open>const [cur] = uploadState.qs; if (!cur?.entries.length) { notificationChannel = ''; notificationSource?.close(); return }
    if (cur?.entries.length && !uploadState.uploading && !uploadState.paused) startUpload(cur.entries[0], cur.to)\<close>
\<close>

definition subscriber :: "string \<Rightarrow> upload_state \<Rightarrow> upload_state" where
  "subscriber rnd s =
     (case qs s of
        [] \<Rightarrow> s\<lparr>notificationChannel := [], handler := None\<rparr>
      | cur # _ \<Rightarrow>
          (case entries cur of
             [] \<Rightarrow> s\<lparr>notificationChannel := [], handler := None\<rparr>
           | x # _ \<Rightarrow>
               if uploading s = None \<and> \<not> paused s then startUpload rnd x (to cur) 0 s else s))"

text \<open>The actions of the upload dialog on the queue.\<close>

definition delete_all :: "upload_state \<Rightarrow> upload_state" where
  "delete_all s = abortCurrentUpload (s\<lparr>qs := []\<rparr>)"

definition toggle_pause :: "upload_state \<Rightarrow> upload_state" where
  "toggle_pause s =
     (let s1 = s\<lparr>paused := \<not> paused s\<rparr>
      in if everPaused s1 then s1 else emit [AlertPauseHint] (s1\<lparr>everPaused := True\<rparr>))"

text \<open>
  The \<open>delete\<close> action of the list of queue \<open>idx\<close> on its entry \<open>f\<close>. \<open>_.pull\<close> removes every
  occurrence of \<open>f\<close>. An index past the end of \<open>uploadState.qs\<close> makes \<open>q\<close> undefined, and
  the action throws before it changes anything.
\<close>

definition delete_entry :: "nat \<Rightarrow> ToUpload \<Rightarrow> upload_state \<Rightarrow> upload_state" where
  "delete_entry idx f s =
     (if uploading s = Some f then abortCurrentUpload s
      else if idx \<ge> length (qs s) then s
      else let q = qs s ! idx;
               q' = q\<lparr>entries := removeAll f (entries q)\<rparr>
           in if entries q' = [] then s\<lparr>qs := take idx (qs s) @ drop (Suc idx) (qs s)\<rparr>
              else s\<lparr>qs := (qs s)[idx := q']\<rparr>)"

definition showUpload :: "upload_state \<Rightarrow> upload_state" where
  "showUpload s = (if qs s = [] then resetCounters s else s)\<lparr>uploadDialogIsOpen := True\<rparr>"

definition onClose :: "upload_state \<Rightarrow> upload_state" where
  "onClose s =
     (let s1 = s\<lparr>uploadDialogIsOpen := False\<rparr>
      in if \<not> reloadOnClose s1 then s1 else emit [ReloadList] (s1\<lparr>reloadOnClose := False\<rparr>))"

section \<open>Events\<close>

text \<open>
  Everything happens in reaction to an event: an intent of the user, a callback of
  the transport of the current request, a message of the notification channel, an
  answer to a confirmation, the closing of a dialog, or the delivery of a state
  change to the subscriber.
\<close>

datatype event =
    Enqueue runtime "string option" string "ToUpload list"
  | Changed string
  | LoadEnd nat
  | NetworkError
  | Progress nat nat
  | Notification string "(string \<times> nat) list"
  | Answer nat bool string
  | DeleteAll
  | TogglePause
  | DeleteEntry nat ToUpload
  | SetSkipExisting bool
  | ShowUpload
  | CloseUpload
  | ConcludedClosed

text \<open>
  The transport delivers its events to the handlers of the run that made the
  request. A request that completes by itself delivers \<open>loadend\<close> with its status; a
  network failure delivers \<open>error\<close> and then \<open>loadend\<close> with status 0.
\<close>

definition transport_loadend :: "nat \<Rightarrow> upload_state \<Rightarrow> upload_state" where
  "transport_loadend status s =
     (case req s of
        None \<Rightarrow> s
      | Some i \<Rightarrow> if req_live s then onloadend i 4 status (s\<lparr>req_live := False\<rparr>) else s)"

definition transport_error :: "upload_state \<Rightarrow> upload_state" where
  "transport_error s =
     (case req s of
        None \<Rightarrow> s
      | Some i \<Rightarrow> if req_live s then onloadend i 4 0 (onerror i (s\<lparr>req_live := False\<rparr>)) else s)"

definition transport_progress :: "nat \<Rightarrow> nat \<Rightarrow> upload_state \<Rightarrow> upload_state" where
  "transport_progress loaded tot s =
     (case req s of
        None \<Rightarrow> s
      | Some i \<Rightarrow> if req_live s then onprogress i loaded tot s else s)"

definition answer :: "nat \<Rightarrow> bool \<Rightarrow> string \<Rightarrow> upload_state \<Rightarrow> upload_state" where
  "answer k confirmed rnd s =
     (if k < length (offers s)
      then resume_answer rnd (offers s ! k) confirmed
             (s\<lparr>offers := take k (offers s) @ drop (Suc k) (offers s)\<rparr>)
      else s)"

fun step :: "event \<Rightarrow> upload_state \<Rightarrow> upload_state" where
  "step (Enqueue rt accept pathname es) s =
     (case enqueue rt accept pathname es s of None \<Rightarrow> s | Some s' \<Rightarrow> s')"
| "step (Changed rnd) s = subscriber rnd s"
| "step (LoadEnd status) s = transport_loadend status s"
| "step NetworkError s = transport_error s"
| "step (Progress loaded tot) s = transport_progress loaded tot s"
| "step (Notification ev data) s =
     (case handler s of None \<Rightarrow> s | Some h \<Rightarrow> onNotification h ev data s)"
| "step (Answer k confirmed rnd) s = answer k confirmed rnd s"
| "step DeleteAll s = delete_all s"
| "step TogglePause s = toggle_pause s"
| "step (DeleteEntry idx f) s = delete_entry idx f s"
| "step (SetSkipExisting b) s = s\<lparr>skipExisting := b\<rparr>"
| "step ShowUpload s = showUpload s"
| "step CloseUpload s = onClose s"
| "step ConcludedClosed s = resetCounters s"

text \<open>A run of events, the first event first.\<close>

definition run :: "event list \<Rightarrow> upload_state \<Rightarrow> upload_state" where
  "run evs s = fold step evs s"

inductive reachable :: "upload_state \<Rightarrow> bool" where
  reachable_init: "reachable init"
| reachable_step: "reachable s \<Longrightarrow> reachable (step ev s)"

section \<open>Notions used in the properties\<close>

text \<open>Every queue of the list has an entry.\<close>

definition queues_nonempty :: "queue list \<Rightarrow> bool" where
  "queues_nonempty xs = list_all (\<lambda>q. entries q \<noteq> []) xs"

text \<open>What the \<open>delete\<close> action leaves of the queue list, and what \<open>enqueue\<close> makes of it.\<close>

definition delete_from :: "nat \<Rightarrow> ToUpload \<Rightarrow> queue list \<Rightarrow> queue list" where
  "delete_from idx f xs =
     (if removeAll f (entries (xs ! idx)) = [] then take idx xs @ drop (Suc idx) xs
      else xs[idx := (xs ! idx)\<lparr>entries := removeAll f (entries (xs ! idx))\<rparr>])"

definition enqueued :: "string \<Rightarrow> ToUpload list \<Rightarrow> queue list \<Rightarrow> queue list" where
  "enqueued t kept xs =
     (case push_to t kept xs of None \<Rightarrow> xs @ [\<lparr>to = t, entries = kept\<rparr>] | Some xs' \<Rightarrow> xs')"

text \<open>
  A request that is under way belongs to a run whose \<open>resuming\<close> is still false, and
  no status of the error class has been pushed for it.
\<close>

definition live_ok :: "upload_state \<Rightarrow> bool" where
  "live_ok s =
     (req_live s \<longrightarrow>
        (\<exists>i. req s = Some i \<and> i < length (calls s) \<and> \<not> resuming (calls s ! i))
        \<and> overrideStatus s < 400)"

text \<open>A runtime for the examples; none of them consults it.\<close>

definition throwing :: runtime where
  "throwing s pattern = None"

text \<open>Two files for one destination, queued and then started.\<close>

definition ex_fileA :: File where
  "ex_fileA = \<lparr>name = ''a.bin'', webkitRelativePath = [], ftype = ''application/octet-stream'',
     content = [1, 2, 3, 4, 5, 6, 7, 8]\<rparr>"

definition ex_fileB :: File where
  "ex_fileB = \<lparr>name = ''b.bin'', webkitRelativePath = [], ftype = ''application/octet-stream'',
     content = [9, 8, 7]\<rparr>"

definition ex_A :: ToUpload where
  "ex_A = \<lparr>oid = 1, ufile = ex_fileA, comment = None\<rparr>"

definition ex_B :: ToUpload where
  "ex_B = \<lparr>oid = 2, ufile = ex_fileB, comment = None\<rparr>"

definition ex_queued :: upload_state where
  "ex_queued = run [Enqueue throwing None ''/docs/'' [ex_A, ex_B]] init"

definition ex_started :: upload_state where
  "ex_started = run [Changed ''x''] ex_queued"

text \<open>
  The status \<open>onloadend\<close> acts on: \<open>overrideStatus || req.status\<close>.
\<close>

definition effective_status :: "upload_state \<Rightarrow> nat \<Rightarrow> nat" where
  "effective_status s req_status = (if overrideStatus s \<noteq> 0 then overrideStatus s else req_status)"

text \<open>The error messages among the effects.\<close>

fun is_error_alert :: "effect \<Rightarrow> bool" where
  "is_error_alert (AlertError x large) = True"
| "is_error_alert e = False"

definition error_alerts :: "effect list \<Rightarrow> effect list" where
  "error_alerts es = filter is_error_alert es"


definition ex_failed :: upload_state where
  "ex_failed = run [LoadEnd 500, Changed ''y''] ex_started"

text \<open>
  The relative paths of a list of entries; the entries of a given relative path that
  the queues of a given destination hold; and the state of a queue list in which no
  two queues share a destination and no queue holds a relative path twice.
\<close>

definition paths_of :: "ToUpload list \<Rightarrow> string list" where
  "paths_of es = map (\<lambda>x. path (ufile x)) es"

definition entries_at :: "queue list \<Rightarrow> string \<Rightarrow> string \<Rightarrow> ToUpload list" where
  "entries_at xs t p =
     filter (\<lambda>x. path (ufile x) = p) (concat (map entries (filter (\<lambda>q. to q = t) xs)))"

definition unique_paths :: "queue list \<Rightarrow> bool" where
  "unique_paths xs = (distinct (map to xs) \<and> list_all (\<lambda>q. distinct (paths_of (entries q))) xs)"

text \<open>All entries of all queues.\<close>

definition all_entries :: "queue list \<Rightarrow> ToUpload list" where
  "all_entries xs = concat (map entries xs)"

text \<open>
  The accept policy as the specification words it: the patterns of the list, and
  for one pattern a suffix test of the name for a leading \<open>.\<close>, a prefix test of the
  declared type for a trailing \<open>*\<close>, and equality with the declared type otherwise.
\<close>

definition patterns :: "string \<Rightarrow> string list" where
  "patterns a = split_accept (normalizeAccept a)"

definition spec_pattern_matches :: "File \<Rightarrow> string \<Rightarrow> bool" where
  "spec_pattern_matches f p =
     (if prefix ''.'' p then suffix p (name f)
      else if suffix ''*'' p then prefix (butlast p) (ftype f)
      else p = ftype f)"

definition spec_passes :: "string \<Rightarrow> File \<Rightarrow> bool" where
  "spec_passes a f = list_ex (spec_pattern_matches f) (patterns a)"

text \<open>Files and entries for the examples of the accept policy and of \<open>enqueue\<close>.\<close>

definition ex_pdf :: File where
  "ex_pdf = \<lparr>name = ''report.pdf'', webkitRelativePath = [], ftype = ''application/pdf'', content = [1, 2]\<rparr>"

definition ex_png :: File where
  "ex_png = \<lparr>name = ''logo.png'', webkitRelativePath = [], ftype = ''image/png'', content = [3]\<rparr>"

definition ex_svg :: File where
  "ex_svg = \<lparr>name = ''logo.svg'', webkitRelativePath = [], ftype = ''image/svg+xml'', content = [4]\<rparr>"

definition ex_up_pdf :: ToUpload where
  "ex_up_pdf = \<lparr>oid = 10, ufile = ex_pdf, comment = None\<rparr>"

definition ex_up_png :: ToUpload where
  "ex_up_png = \<lparr>oid = 11, ufile = ex_png, comment = None\<rparr>"

definition ex_up_svg :: ToUpload where
  "ex_up_svg = \<lparr>oid = 12, ufile = ex_svg, comment = None\<rparr>"

definition ex_dtd :: File where
  "ex_dtd = \<lparr>name = ''schema.dtd'', webkitRelativePath = [], ftype = ''application/xml-dtd'', content = [5]\<rparr>"

definition ex_odd :: File where
  "ex_odd = \<lparr>name = ''photo.png'', webkitRelativePath = [], ftype = ''x-image/png'', content = [6]\<rparr>"

definition ex_up_dtd :: ToUpload where
  "ex_up_dtd = \<lparr>oid = 13, ufile = ex_dtd, comment = None\<rparr>"

definition ex_filtered :: upload_state where
  "ex_filtered = step (Enqueue throwing (Some ''.png'') ''/docs/'' [ex_up_pdf, ex_up_png, ex_up_svg]) init"

definition ex_A_again :: ToUpload where
  "ex_A_again = \<lparr>oid = 3, ufile = ex_fileA, comment = Some ''again''\<rparr>"

text \<open>
  Further states of the example: the first file is done and the second one is
  uploading, in the same cycle of the queue; a resume offer for the second file is
  waiting for its answer; the offer is accepted; the entry that is uploading is
  deleted by the user and the next one is started; a resume offer for the first
  file is waiting while that file is uploading.
\<close>

text \<open>
  Four files for one destination: the first one is done, a resume offer for the
  second one was accepted, and the first one is being sent again; then that request
  completes with status 200 and the subscriber runs.
\<close>

definition ex_fileC :: File where
  "ex_fileC = \<lparr>name = ''c.bin'', webkitRelativePath = [], ftype = ''application/octet-stream'',
     content = [4, 4]\<rparr>"

definition ex_fileD :: File where
  "ex_fileD = \<lparr>name = ''d.bin'', webkitRelativePath = [], ftype = ''application/octet-stream'',
     content = [6]\<rparr>"

definition ex_C :: ToUpload where
  "ex_C = \<lparr>oid = 4, ufile = ex_fileC, comment = None\<rparr>"

definition ex_D :: ToUpload where
  "ex_D = \<lparr>oid = 5, ufile = ex_fileD, comment = None\<rparr>"

definition ex_four :: upload_state where
  "ex_four = run [Enqueue throwing None ''/docs/'' [ex_A, ex_B, ex_C, ex_D], Changed ''x''] init"

definition ex_resent :: upload_state where
  "ex_resent =
     run [LoadEnd 200, Changed ''y'', Notification ''upload.resumable'' [(''b.bin'', 2)],
          Answer 0 True ''z''] ex_four"

definition ex_d_started :: upload_state where
  "ex_d_started = run [LoadEnd 200, Changed ''w''] ex_resent"

definition ex_b_active :: upload_state where
  "ex_b_active = run [LoadEnd 200, Changed ''y''] ex_started"

definition ex_stale_offer :: upload_state where
  "ex_stale_offer = run [Notification ''upload.resumable'' [(''b.bin'', 2)]] ex_b_active"

definition ex_stale_resumed :: upload_state where
  "ex_stale_resumed = run [Answer 0 True ''z''] ex_stale_offer"

definition ex_cancelled :: upload_state where
  "ex_cancelled = run [DeleteEntry 0 ex_A, Changed ''y''] ex_started"

definition ex_offered :: upload_state where
  "ex_offered = run [Progress 2 12, Notification ''upload.resumable'' [(''a.bin'', 5)]] ex_started"

section \<open>What the handlers leave unchanged\<close>

lemmas small_defs = emit_def close_last_def error_def done_ok_def next_item_def onerror_def

lemma onloadend_frame:
  "calls (onloadend i r st s) = calls s"
  "req (onloadend i r st s) = req s"
  "req_live (onloadend i r st s) = req_live s"
  "overrideStatus (onloadend i r st s) = overrideStatus s"
  "offers (onloadend i r st s) = offers s"
  "paused (onloadend i r st s) = paused s"
  by (simp_all add: onloadend_def small_defs Let_def)

lemma onloadend_qs:
  "qs (onloadend i r st s) = qs s \<or> qs (onloadend i r st s) = shift_head (qs s)"
  by (simp add: onloadend_def small_defs Let_def)

lemma error_frame:
  "calls (error i st s) = calls s"
  "req (error i st s) = req s"
  "req_live (error i st s) = req_live s"
  "overrideStatus (error i st s) = overrideStatus s"
  "qs (error i st s) = qs s"
  "offers (error i st s) = offers s"
  by (simp_all add: small_defs Let_def)

lemma abort_frame:
  "calls (abortCurrentUpload s) = calls s"
  "req (abortCurrentUpload s) = req s"
  "overrideStatus (abortCurrentUpload s) = overrideStatus s"
  "offers (abortCurrentUpload s) = offers s"
  by (simp_all add: abortCurrentUpload_def onloadend_frame split: option.splits)

lemma abort_qs:
  "qs (abortCurrentUpload s) = qs s \<or> qs (abortCurrentUpload s) = shift_head (qs s)"
  using onloadend_qs [of _ 4 0 "s\<lparr>req_live := False\<rparr>"]
  by (auto simp: abortCurrentUpload_def split: option.splits)

lemma live_ok_startUpload: "live_ok (startUpload rnd x t r s)"
  by (simp add: live_ok_def startUpload_def Let_def)

lemma live_ok_not_live: "\<not> req_live s \<Longrightarrow> live_ok s"
  by (simp add: live_ok_def)

lemma abort_not_live: "req s \<noteq> None \<or> \<not> req_live s \<Longrightarrow> \<not> req_live (abortCurrentUpload s)"
  by (auto simp: abortCurrentUpload_def onloadend_frame split: option.splits)

lemma live_ok_req: "live_ok s \<Longrightarrow> req s \<noteq> None \<or> \<not> req_live s"
  by (auto simp: live_ok_def)

lemma live_ok_abort: "live_ok s \<Longrightarrow> live_ok (abortCurrentUpload s)"
  using abort_not_live live_ok_req live_ok_not_live by blast

lemma live_ok_on_status: "live_ok s \<Longrightarrow> live_ok (on_status d up s)"
proof -
  assume a: "live_ok s"
  let ?s1 = "s\<lparr>overrideStatus := (case map_of d (path (ufile up)) of None \<Rightarrow> 0 | Some v \<Rightarrow> v)\<rparr>"
  have r: "req ?s1 \<noteq> None \<or> \<not> req_live ?s1" using live_ok_req [OF a] by simp
  show ?thesis
  proof (cases "overrideStatus ?s1 \<ge> 400")
    case True
    then show ?thesis using abort_not_live [OF r]
      by (simp add: on_status_def Let_def live_ok_not_live)
  next
    case False
    then show ?thesis using a
      by (auto simp: on_status_def Let_def live_ok_def)
  qed
qed

lemma live_ok_on_resumable: "live_ok s \<Longrightarrow> live_ok (on_resumable h d up s)"
  by (auto simp: on_resumable_def Let_def live_ok_def emit_def close_last_def split: option.splits)

lemma live_ok_step: "live_ok s \<Longrightarrow> live_ok (step ev s)"
proof (cases ev)
  case (Enqueue rt a p es)
  assume "live_ok s"
  then show ?thesis using Enqueue
    by (auto simp: live_ok_def enqueue_def emit_def Let_def split: option.splits)
next
  case (Changed rnd)
  assume "live_ok s"
  then show ?thesis using Changed
    by (auto simp: subscriber_def live_ok_startUpload split: list.splits) (auto simp: live_ok_def split: option.splits)
next
  case (LoadEnd st)
  assume "live_ok s"
  then show ?thesis using LoadEnd
    by (auto simp: transport_loadend_def live_ok_def onloadend_frame split: option.splits)
next
  case NetworkError
  assume "live_ok s"
  then show ?thesis using NetworkError
    by (auto simp: transport_error_def live_ok_def onloadend_frame onerror_def error_frame split: option.splits)
next
  case (Progress l t)
  assume "live_ok s"
  then show ?thesis using Progress
    by (auto simp: transport_progress_def live_ok_def onprogress_def Let_def split: option.splits)
next
  case (Notification e d)
  assume "live_ok s"
  then show ?thesis using Notification
    by (auto simp: onNotification_def live_ok_on_status live_ok_on_resumable split: option.splits)
next
  case (Answer k c rnd)
  assume "live_ok s"
  then show ?thesis using Answer
    by (auto simp: answer_def resume_answer_def Let_def live_ok_startUpload) (auto simp: live_ok_def split: option.splits)
next
  case DeleteAll
  assume "live_ok s"
  then have "live_ok (s\<lparr>qs := []\<rparr>)" by (simp add: live_ok_def)
  then show ?thesis using DeleteAll by (simp add: delete_all_def live_ok_abort)
next
  case TogglePause
  assume "live_ok s"
  then show ?thesis using TogglePause by (simp add: toggle_pause_def emit_def Let_def live_ok_def)
next
  case (DeleteEntry idx f)
  assume "live_ok s"
  then show ?thesis using DeleteEntry
    by (auto simp: delete_entry_def Let_def live_ok_abort) (auto simp: live_ok_def split: option.splits)
next
  case (SetSkipExisting b)
  assume "live_ok s"
  then show ?thesis using SetSkipExisting by (simp add: live_ok_def)
next
  case ShowUpload
  assume "live_ok s"
  then show ?thesis using ShowUpload by (simp add: showUpload_def resetCounters_def live_ok_def)
next
  case CloseUpload
  assume "live_ok s"
  then show ?thesis using CloseUpload by (simp add: onClose_def emit_def Let_def live_ok_def)
next
  case ConcludedClosed
  assume "live_ok s"
  then show ?thesis using ConcludedClosed by (simp add: resetCounters_def live_ok_def)
qed

lemma reachable_live_ok: "reachable s \<Longrightarrow> live_ok s"
  by (induction rule: reachable.induct) (simp_all add: live_ok_step, simp add: live_ok_def init_def)

lemma startUpload_qs: "qs (startUpload rnd x t r s) = qs s"
  by (simp add: startUpload_def Let_def)

lemma uniqBy_path_distinct:
  "distinct (map (\<lambda>x. path (ufile x)) (uniqBy_path seen xs)) \<and>
   set (map (\<lambda>x. path (ufile x)) (uniqBy_path seen xs)) \<inter> set seen = {}"
  by (induction xs arbitrary: seen) (auto, force+)

lemma enqueue_qs:
  assumes "enqueue rt a t es s = Some s'"
  shows "qs s' = qs s \<or>
    (\<exists>kept. kept \<noteq> [] \<and> distinct (map (\<lambda>x. path (ufile x)) kept) \<and> qs s' = enqueued t kept (qs s))"
proof -
  from assms obtain oks where oks: "accept_all rt a es = Some oks"
    by (auto simp: enqueue_def split: option.splits)
  let ?kept = "uniqBy_path [] (map fst (filter snd (zip es oks)))"
  have d: "distinct (map (\<lambda>x. path (ufile x)) ?kept)"
    using uniqBy_path_distinct [of "[]"] by simp
  have q1: "qs (if False \<in> set oks then emit [AlertRejected] s else s) = qs s"
    by (simp add: emit_def)
  show ?thesis
  proof (cases "?kept = []")
    case True
    then show ?thesis using assms oks q1 by (auto simp: enqueue_def Let_def)
  next
    case False
    then have "qs s' = enqueued t ?kept (qs s)" using assms oks
      by (auto simp: enqueue_def enqueued_def Let_def q1 split: option.splits)
    then show ?thesis using False d by blast
  qed
qed

lemma step_qs:
  "qs (step ev s) = qs s \<or> qs (step ev s) = shift_head (qs s) \<or> qs (step ev s) = [] \<or>
   (\<exists>idx f. idx < length (qs s) \<and> qs (step ev s) = delete_from idx f (qs s)) \<or>
   (\<exists>t kept. kept \<noteq> [] \<and> distinct (map (\<lambda>x. path (ufile x)) kept) \<and> qs (step ev s) = enqueued t kept (qs s))"
proof (cases ev)
  case (Enqueue rt a t es)
  then show ?thesis using enqueue_qs [of rt a t es s]
    by (cases "enqueue rt a t es s") auto
next
  case (Changed rnd)
  then show ?thesis by (simp add: subscriber_def startUpload_qs split: list.splits)
next
  case (LoadEnd st)
  then show ?thesis using onloadend_qs [of _ 4 st "s\<lparr>req_live := False\<rparr>"]
    by (auto simp: transport_loadend_def split: option.splits)
next
  case NetworkError
  then show ?thesis using onloadend_qs [of _ 4 0 "onerror _ (s\<lparr>req_live := False\<rparr>)"]
    by (auto simp: transport_error_def onerror_def error_frame split: option.splits)
next
  case (Progress l t)
  then show ?thesis by (simp add: transport_progress_def onprogress_def Let_def split: option.splits)
next
  case (Notification e d)
  have "qs (on_status d up s) = qs s \<or> qs (on_status d up s) = shift_head (qs s)" for up
    using abort_qs [of "s\<lparr>overrideStatus := (case map_of d (path (ufile up)) of None \<Rightarrow> 0 | Some v \<Rightarrow> v)\<rparr>"]
    by (auto simp: on_status_def Let_def)
  moreover have "qs (on_resumable h d up s) = qs s" for h up
    by (simp add: on_resumable_def Let_def emit_def close_last_def split: option.splits)
  ultimately show ?thesis using Notification
    by (auto simp: onNotification_def split: option.splits)
next
  case (Answer k c rnd)
  have "qs (resume_answer rnd off c s0) = qs s0 \<or> qs (resume_answer rnd off c s0) = shift_head (qs s0)" for off s0
    using abort_qs [of "s0\<lparr>calls := (calls s0)[o_handler off := (calls s0 ! o_handler off)\<lparr>resuming := True\<rparr>]\<rparr>"]
    by (auto simp: resume_answer_def Let_def startUpload_qs)
  from this [of "offers s ! k" "s\<lparr>offers := take k (offers s) @ drop (Suc k) (offers s)\<rparr>"]
  show ?thesis using Answer by (auto simp: answer_def)
next
  case DeleteAll
  then show ?thesis using abort_qs [of "s\<lparr>qs := []\<rparr>"]
    by (auto simp: delete_all_def shift_head_def)
next
  case TogglePause
  then show ?thesis by (simp add: toggle_pause_def emit_def Let_def)
next
  case (DeleteEntry idx f)
  have "qs (delete_entry idx f s) = qs (abortCurrentUpload s) \<or> qs (delete_entry idx f s) = qs s \<or>
        (idx < length (qs s) \<and> qs (delete_entry idx f s) = delete_from idx f (qs s))"
    by (simp add: delete_entry_def delete_from_def Let_def)
  then show ?thesis using abort_qs [of s] DeleteEntry by auto
next
  case (SetSkipExisting b)
  then show ?thesis by simp
next
  case ShowUpload
  then show ?thesis by (simp add: showUpload_def resetCounters_def)
next
  case CloseUpload
  then show ?thesis by (simp add: onClose_def emit_def Let_def)
next
  case ConcludedClosed
  then show ?thesis by (simp add: resetCounters_def)
qed

lemma reachable_run: "reachable s \<Longrightarrow> reachable (run evs s)"
  unfolding run_def by (induction evs arbitrary: s) (auto intro: reachable_step)

lemma nonempty_shift_head: "queues_nonempty xs \<Longrightarrow> queues_nonempty (shift_head xs)"
  by (auto simp: queues_nonempty_def shift_head_def split: list.splits)

lemma nonempty_delete_from:
  "queues_nonempty xs \<Longrightarrow> idx < length xs \<Longrightarrow> queues_nonempty (delete_from idx f xs)"
  by (auto simp: queues_nonempty_def delete_from_def list_all_iff
           dest: in_set_takeD in_set_dropD set_update_subset_insert [THEN subsetD])

lemma nonempty_push_to:
  "queues_nonempty xs \<Longrightarrow> push_to t kept xs = Some xs' \<Longrightarrow> queues_nonempty xs'"
  by (induction xs arbitrary: xs') (auto simp: queues_nonempty_def split: if_splits)

lemma nonempty_enqueued:
  "queues_nonempty xs \<Longrightarrow> kept \<noteq> [] \<Longrightarrow> queues_nonempty (enqueued t kept xs)"
  using nonempty_push_to [of xs t kept]
  by (auto simp: enqueued_def split: option.splits) (simp add: queues_nonempty_def)

lemma nonempty_step: "queues_nonempty (qs s) \<Longrightarrow> queues_nonempty (qs (step ev s))"
  using step_qs [of ev s] nonempty_shift_head [of "qs s"] nonempty_delete_from [of "qs s"]
    nonempty_enqueued [of "qs s"]
  by (auto simp: queues_nonempty_def)

lemma reachable_nonempty: "reachable s \<Longrightarrow> queues_nonempty (qs s)"
  by (induction rule: reachable.induct) (simp_all add: nonempty_step, simp add: queues_nonempty_def init_def)

lemma next_item_frame:
  "done_count (next_item s) = done_count s"
  "doneByte (next_item s) = doneByte s"
  "errors (next_item s) = errors s"
  "uploading (next_item s) = None"
  "qs (next_item s) = shift_head (qs s)"
  "error_alerts (log (next_item s)) = error_alerts (log s)"
  by (simp_all add: next_item_def emit_def Let_def shift_head_def error_alerts_def)

lemma close_last_frame:
  "done_count (close_last s) = done_count s"
  "doneByte (close_last s) = doneByte s"
  "errors (close_last s) = errors s"
  "qs (close_last s) = qs s"
  "calls (close_last s) = calls s"
  "overrideStatus (close_last s) = overrideStatus s"
  "error_alerts (log (close_last s)) = error_alerts (log s)"
  by (simp_all add: close_last_def emit_def error_alerts_def)

lemma onloadend_4:
  "onloadend i 4 st s =
     (let status = effective_status s st;
          s1 = close_last (s\<lparr>outcomes := outcomes s @ [(i, status)]\<rparr>);
          s2 = (if status \<noteq> 0 \<and> status \<noteq> HTTP_CONFLICT
                then (if status \<ge> 400 then error i status s1 else done_ok i s1)
                else s1)
      in if \<not> resuming (calls s2 ! i) then next_item s2 else s2)"
  by (simp add: onloadend_def effective_status_def)

lemma effective_status_frame [simp]:
  "effective_status (s\<lparr>req_live := b\<rparr>) st = effective_status s st"
  by (simp add: effective_status_def)

section \<open>The examples, evaluated\<close>

lemmas ex_defs = ex_fileA_def ex_fileB_def ex_A_def ex_B_def

lemma ex_paths: "path ex_fileA = ''a.bin''" "path ex_fileB = ''b.bin''"
  by (simp_all add: ex_defs path_def path_pre_def prefix_str_def)

lemma ex_queued_eq: "ex_queued = init\<lparr>qs := [\<lparr>to = ''/docs/'', entries = [ex_A, ex_B]\<rparr>]\<rparr>"
  by (simp add: ex_queued_def run_def enqueue_def simulateBrowserAccept_def init_def ex_paths ex_A_def ex_B_def)

lemma ex_started_eq: "ex_started = startUpload ''x'' ex_A ''/docs/'' 0 ex_queued"
  by (simp add: ex_started_def run_def subscriber_def ex_queued_eq init_def)

lemma ex_reachable: "reachable ex_queued" "reachable ex_started"
  by (simp_all add: ex_started_def ex_queued_def reachable_run reachable_init)

section \<open>The queue invariant\<close>

text \<open>
  C6: in every reachable state, every queue of \<open>uploadState.qs\<close> has at least one
  entry. The reachable states are closed under every event, so a completion that
  advances past the last entry of a queue, the removal of a queued entry and
  \<open>enqueue\<close> all leave no empty queue behind within their own update.
\<close>

theorem queues_never_empty: "reachable s \<Longrightarrow> \<forall>q \<in> set (qs s). entries q \<noteq> []"
  using reachable_nonempty [of s] by (simp add: queues_nonempty_def list_all_iff)

theorem queues_never_empty_witness:
  "reachable ex_started \<and> qs ex_started \<noteq> [] \<and> list_all (\<lambda>q. entries q \<noteq> []) (qs ex_started)"
proof -
  have q: "qs ex_started = [\<lparr>to = ''/docs/'', entries = [ex_A, ex_B]\<rparr>]"
    by (simp add: ex_started_eq startUpload_qs ex_queued_eq)
  have "list_all (\<lambda>q. entries q \<noteq> []) (qs ex_started)"
    using queues_never_empty [OF ex_reachable(2)] by (simp add: list_all_iff)
  then show ?thesis using ex_reachable(2) q by simp
qed

section \<open>Completion of a transfer\<close>

text \<open>
  In a reachable state, when the request under way completes and the status the
  completion handler acts on is the conflict status, \<open>done\<close>, \<open>doneByte\<close> and \<open>errors\<close>
  keep their values, nothing is uploading any more, and the first entry of the first
  queue is gone, and with it the queue if that was its only entry. That entry is
  where the subscriber of the state takes the transfers it starts from.
\<close>

theorem conflict_skips_and_advances:
  assumes "reachable s" and "req_live s" and "effective_status s st = HTTP_CONFLICT"
  shows "done_count (transport_loadend st s) = done_count s \<and>
         doneByte (transport_loadend st s) = doneByte s \<and>
         errors (transport_loadend st s) = errors s \<and>
         uploading (transport_loadend st s) = None \<and>
         qs (transport_loadend st s) = shift_head (qs s) \<and>
         (\<forall>q rest x xs. qs s = q # rest \<and> entries q = x # xs \<longrightarrow>
            qs (transport_loadend st s) = (if xs = [] then rest else q\<lparr>entries := xs\<rparr> # rest))"
proof -
  from reachable_live_ok [OF assms(1)] assms(2)
  obtain i where i: "req s = Some i" "\<not> resuming (calls s ! i)"
    by (auto simp: live_ok_def)
  have "transport_loadend st s =
        next_item (close_last (s\<lparr>req_live := False, outcomes := outcomes s @ [(i, HTTP_CONFLICT)]\<rparr>))"
    using i assms(2,3)
    by (simp add: transport_loadend_def onloadend_4 Let_def close_last_frame)
  then show ?thesis by (simp add: next_item_frame close_last_frame shift_head_def)
qed

lemma ex_started_facts:
  "req_live ex_started" "effective_status ex_started 409 = HTTP_CONFLICT"
  "qs ex_started = [\<lparr>to = ''/docs/'', entries = [ex_A, ex_B]\<rparr>]"
  "done_count ex_started = 0" "doneByte ex_started = 0" "errors ex_started = 0"
  "req ex_started = Some 0" "length (calls ex_started) = 1"
  "c_resume (calls ex_started ! 0) = 0" "lastProgress (calls ex_started ! 0) = 0"
  "bytesSent ex_started = 0" "c_toUpload (calls ex_started ! 0) = ex_A"
  "log ex_started = []" "overrideStatus ex_started = 0"
  by (simp_all add: ex_started_eq ex_queued_eq startUpload_def init_def effective_status_def
        HTTP_CONFLICT_def Let_def)

theorem conflict_skips_and_advances_witness:
  "reachable ex_started \<and> req_live ex_started \<and> effective_status ex_started 409 = HTTP_CONFLICT \<and>
   done_count (transport_loadend 409 ex_started) = 0 \<and>
   doneByte (transport_loadend 409 ex_started) = 0 \<and>
   errors (transport_loadend 409 ex_started) = 0 \<and>
   uploading (transport_loadend 409 ex_started) = None \<and>
   qs (transport_loadend 409 ex_started) = [\<lparr>to = ''/docs/'', entries = [ex_B]\<rparr>]"
  using conflict_skips_and_advances [OF ex_reachable(2) ex_started_facts(1) ex_started_facts(2)]
    ex_reachable(2)
  by (simp add: ex_started_facts shift_head_def)

lemma ex_resent_reachable: "reachable ex_resent"
  by (simp add: ex_resent_def ex_four_def reachable_run reachable_init)

text \<open>
  C2 on the code, after a resume offer for the second file of a queue cycle was
  accepted: the first file is being sent again, and the queue holds the third and
  the fourth file. When this request completes with the conflict status, the
  counters keep their values, but the entry that leaves the queue is the third file,
  for which no transfer was ever started.
\<close>

theorem conflict_after_stale_handoff:
  "reachable ex_resent \<and> req_live ex_resent \<and> uploading ex_resent = Some ex_A \<and>
   qs ex_resent = [\<lparr>to = ''/docs/'', entries = [ex_C, ex_D]\<rparr>] \<and>
   effective_status ex_resent 409 = HTTP_CONFLICT \<and>
   done_count (transport_loadend 409 ex_resent) = done_count ex_resent \<and>
   doneByte (transport_loadend 409 ex_resent) = doneByte ex_resent \<and>
   errors (transport_loadend 409 ex_resent) = errors ex_resent \<and>
   qs (transport_loadend 409 ex_resent) = [\<lparr>to = ''/docs/'', entries = [ex_D]\<rparr>] \<and>
   map c_toUpload (calls (transport_loadend 409 ex_resent)) = [ex_A, ex_B, ex_A]"
proof -
  have "req_live ex_resent \<and> uploading ex_resent = Some ex_A \<and>
   qs ex_resent = [\<lparr>to = ''/docs/'', entries = [ex_C, ex_D]\<rparr>] \<and>
   effective_status ex_resent 409 = HTTP_CONFLICT \<and>
   done_count (transport_loadend 409 ex_resent) = done_count ex_resent \<and>
   doneByte (transport_loadend 409 ex_resent) = doneByte ex_resent \<and>
   errors (transport_loadend 409 ex_resent) = errors ex_resent \<and>
   qs (transport_loadend 409 ex_resent) = [\<lparr>to = ''/docs/'', entries = [ex_D]\<rparr>] \<and>
   map c_toUpload (calls (transport_loadend 409 ex_resent)) = [ex_A, ex_B, ex_A]"
    by code_simp
  then show ?thesis using ex_resent_reachable by blast
qed

text \<open>
  C3, as the code has it: a completion whose status is at least 400 and is not the
  conflict status increments \<open>errors\<close>; an error message is shown exactly when
  \<open>errors\<close> was 0 before, and a later error of the batch adds no message. The
  conflict status, which is 409, is not counted.
\<close>

theorem errors_counted_first_reported:
  assumes "effective_status s st \<ge> 400" and "effective_status s st \<noteq> HTTP_CONFLICT"
  shows "errors (onloadend i 4 st s) = errors s + 1 \<and>
         error_alerts (log (onloadend i 4 st s)) =
           error_alerts (log s) @
             (if errors s = 0
              then [AlertError (c_toUpload (calls s ! i)) (effective_status s st = HTTP_PAYLOAD_TOO_LARGE)]
              else [])"
proof -
  let ?s1 = "close_last (s\<lparr>outcomes := outcomes s @ [(i, effective_status s st)]\<rparr>)"
  let ?s2 = "error i (effective_status s st) ?s1"
  have e: "errors ?s2 = errors s + 1"
    by (simp add: error_def Let_def close_last_frame emit_def)
  have l: "error_alerts (log ?s2) = error_alerts (log s) @
             (if errors s = 0
              then [AlertError (c_toUpload (calls s ! i)) (effective_status s st = HTTP_PAYLOAD_TOO_LARGE)]
              else [])"
    by (simp add: error_def Let_def close_last_frame emit_def error_alerts_def close_last_def)
  have "onloadend i 4 st s = ?s2 \<or> onloadend i 4 st s = next_item ?s2"
    using assms by (auto simp: onloadend_4 Let_def)
  then show ?thesis using e l by (auto simp: next_item_frame)
qed

lemma ex_failed_facts:
  "errors ex_failed = 1" "overrideStatus ex_failed = 0"
  "error_alerts (log ex_failed) = [AlertError ex_A False]"
  "req ex_failed = Some (Suc 0)" "req_live ex_failed"
  by code_simp+

theorem errors_counted_first_reported_witness:
  "effective_status ex_failed 413 \<ge> 400 \<and> effective_status ex_failed 413 \<noteq> HTTP_CONFLICT \<and>
   errors (onloadend 1 4 413 ex_failed) = 2 \<and>
   error_alerts (log (onloadend 1 4 413 ex_failed)) = [AlertError ex_A False]"
  using errors_counted_first_reported [of ex_failed 413 1]
  by (simp add: ex_failed_facts effective_status_def HTTP_CONFLICT_def)

text \<open>
  C3 with the conflict status: it is at least 400, and a completion with it leaves
  \<open>errors\<close> as it is.
\<close>

theorem conflict_not_counted_counterexample:
  "(409::nat) \<ge> 400 \<and> effective_status ex_started 409 = 409 \<and>
   errors (onloadend 0 4 409 ex_started) = errors ex_started"
  by (simp add: onloadend_4 ex_started_facts Let_def close_last_frame next_item_frame
        HTTP_CONFLICT_def effective_status_def)

text \<open>
  C10: in a reachable state with a request under way, a network failure (the
  \<open>error\<close> handler, then the completion handler with status 0) increments \<open>errors\<close>
  by exactly one, while an abort of the same request leaves \<open>errors\<close> as it is; when
  no status was pushed, neither of them counts the file as done.
\<close>

theorem network_error_counted_once:
  assumes "reachable s" and "req_live s"
  shows "errors (transport_error s) = errors s + 1 \<and>
         errors (abortCurrentUpload s) = errors s \<and>
         (overrideStatus s = 0 \<longrightarrow>
            done_count (transport_error s) = done_count s \<and>
            done_count (abortCurrentUpload s) = done_count s)"
proof -
  from reachable_live_ok [OF assms(1)] assms(2)
  obtain i where i: "req s = Some i" and o: "overrideStatus s < 400"
    by (auto simp: live_ok_def)
  have a: "errors (onloadend i 4 0 s0) = errors s0" if "overrideStatus s0 < 400" for s0
    using that
    by (auto simp: onloadend_4 effective_status_def Let_def next_item_frame close_last_frame done_ok_def)
  have d: "done_count (onloadend i 4 0 s0) = done_count s0" if "overrideStatus s0 = 0" for s0
    using that
    by (auto simp: onloadend_4 effective_status_def Let_def next_item_frame close_last_frame)
  have e: "errors (onerror i s0) = errors s0 + 1" "overrideStatus (onerror i s0) = overrideStatus s0"
    "done_count (onerror i s0) = done_count s0" for s0
    by (simp_all add: onerror_def error_def Let_def emit_def close_last_def)
  show ?thesis using i o assms(2) a d e
    by (simp add: transport_error_def abortCurrentUpload_def)
qed

theorem network_error_counted_once_witness:
  "reachable ex_started \<and> req_live ex_started \<and>
   errors (transport_error ex_started) = 1 \<and> errors (abortCurrentUpload ex_started) = 0"
  using network_error_counted_once [OF ex_reachable(2) ex_started_facts(1)] ex_reachable(2)
  by (simp add: ex_started_facts)

section \<open>Progress\<close>





section \<open>\<open>enqueue\<close> and the identity of entries\<close>

lemma unique_shift_head: "unique_paths xs \<Longrightarrow> unique_paths (shift_head xs)"
  by (auto simp: unique_paths_def shift_head_def paths_of_def map_tl distinct_tl split: list.splits)

lemma distinct_take_drop: "distinct ys \<Longrightarrow> distinct (take i ys @ drop (Suc i) ys)"
proof -
  assume d: "distinct ys"
  then have "distinct (take i ys @ drop i ys)" by simp
  then have "set (take i ys) \<inter> set (drop i ys) = {}" by (simp only: distinct_append)
  moreover have "set (drop (Suc i) ys) \<subseteq> set (drop i ys)"
    by (simp add: set_drop_subset_set_drop)
  ultimately have "set (take i ys) \<inter> set (drop (Suc i) ys) = {}" by blast
  then show ?thesis using d by simp
qed

lemma unique_delete_from:
  assumes "unique_paths xs" and "idx < length xs"
  shows "unique_paths (delete_from idx f xs)"
proof (cases "removeAll f (entries (xs ! idx)) = []")
  case True
  have "distinct (map to (take idx xs @ drop (Suc idx) xs))"
    using assms(1) distinct_take_drop [of "map to xs" idx]
    by (simp add: unique_paths_def take_map drop_map)
  moreover have "list_all (\<lambda>q. distinct (paths_of (entries q))) (take idx xs @ drop (Suc idx) xs)"
    using assms(1) by (auto simp: unique_paths_def list_all_iff dest: in_set_takeD in_set_dropD)
  ultimately show ?thesis using True by (simp add: delete_from_def unique_paths_def)
next
  case False
  let ?q = "(xs ! idx)\<lparr>entries := removeAll f (entries (xs ! idx))\<rparr>"
  have "map to (xs[idx := ?q]) = map to xs"
    by (simp add: map_update list_update_same_conv assms(2))
  moreover have "distinct (paths_of (entries ?q))"
    using assms by (auto simp: unique_paths_def list_all_iff paths_of_def removeAll_filter_not_eq distinct_map_filter)
  then have "list_all (\<lambda>q. distinct (paths_of (entries q))) (xs[idx := ?q])"
    using assms(1) by (auto simp: unique_paths_def list_all_iff dest: set_update_subset_insert [THEN subsetD])
  ultimately show ?thesis using False assms(1) by (simp add: delete_from_def unique_paths_def)
qed

lemma push_to_None: "push_to t es xs = None \<Longrightarrow> t \<notin> to ` set xs"
  by (induction xs) (auto split: if_splits)

lemma push_to_Some_to: "push_to t es xs = Some xs' \<Longrightarrow> map to xs' = map to xs"
  by (induction xs arbitrary: xs') (auto split: if_splits)

lemma distinct_difference:
  "distinct (paths_of old) \<Longrightarrow> distinct (paths_of es) \<Longrightarrow>
   distinct (paths_of (old @ differenceBy_path es old))"
  by (auto simp: paths_of_def differenceBy_path_def distinct_map_filter) (metis imageI)

lemma push_to_Some_distinct:
  "push_to t es xs = Some xs' \<Longrightarrow> distinct (paths_of es) \<Longrightarrow>
   list_all (\<lambda>q. distinct (paths_of (entries q))) xs \<Longrightarrow>
   list_all (\<lambda>q. distinct (paths_of (entries q))) xs'"
  by (induction xs arbitrary: xs') (auto split: if_splits simp: distinct_difference)

lemma unique_enqueued:
  assumes "unique_paths xs" and "distinct (paths_of kept)"
  shows "unique_paths (enqueued t kept xs)"
proof (cases "push_to t kept xs")
  case None
  then show ?thesis using assms push_to_None [OF None]
    by (auto simp: enqueued_def unique_paths_def)
next
  case (Some xs')
  then show ?thesis using assms push_to_Some_to [OF Some] push_to_Some_distinct [OF Some]
    by (auto simp: enqueued_def unique_paths_def)
qed

lemma unique_step: "unique_paths (qs s) \<Longrightarrow> unique_paths (qs (step ev s))"
  using step_qs [of ev s] unique_shift_head [of "qs s"] unique_delete_from [of "qs s"]
    unique_enqueued [of "qs s"]
  by (auto simp: paths_of_def) (simp add: unique_paths_def)

lemma reachable_unique: "reachable s \<Longrightarrow> unique_paths (qs s)"
  by (induction rule: reachable.induct) (simp_all add: unique_step, simp add: unique_paths_def init_def)

lemma push_to_unchanged:
  "distinct (map to xs) \<Longrightarrow> q \<in> set xs \<Longrightarrow> to q = t \<Longrightarrow>
   differenceBy_path es (entries q) = [] \<Longrightarrow> push_to t es xs = Some xs"
  by (induction xs) (auto simp: rev_image_eqI)

lemma enqueue_single:
  "enqueue rt accept t [x] s =
     (case simulateBrowserAccept rt accept (ufile x) of
        None \<Rightarrow> None
      | Some False \<Rightarrow> Some (emit [AlertRejected] s)
      | Some True \<Rightarrow> Some (s\<lparr>qs := enqueued t [x] (qs s)\<rparr>))"
  by (simp add: enqueue_def enqueued_def Let_def split: option.splits bool.splits)

lemma enqueue_existing:
  assumes "unique_paths (qs s)" and "q \<in> set (qs s)" and "to q = t"
    and "path (ufile x) \<in> set (paths_of (entries q))"
  shows "qs (step (Enqueue rt accept t [x]) s) = qs s"
proof -
  have "differenceBy_path [x] (entries q) = []"
    using assms(4) by (simp add: differenceBy_path_def paths_of_def)
  then have "push_to t [x] (qs s) = Some (qs s)"
    using push_to_unchanged [of "qs s" q t "[x]"] assms by (simp add: unique_paths_def)
  then show ?thesis
    by (simp add: enqueue_single enqueued_def emit_def split: option.splits bool.splits)
qed

lemma push_to_present:
  "push_to t [x] xs = Some xs' \<Longrightarrow>
   \<exists>q \<in> set xs'. to q = t \<and> path (ufile x) \<in> set (paths_of (entries q))"
  by (induction xs arbitrary: xs')
     (auto simp: differenceBy_path_def paths_of_def split: if_splits)

lemma enqueue_present:
  assumes "simulateBrowserAccept rt accept (ufile x) = Some True"
  shows "\<exists>q \<in> set (qs (step (Enqueue rt accept t [x]) s)).
           to q = t \<and> path (ufile x) \<in> set (paths_of (entries q))"
proof (cases "push_to t [x] (qs s)")
  case None
  then show ?thesis using assms
    by (simp add: enqueue_single enqueued_def paths_of_def)
next
  case (Some xs')
  then show ?thesis using assms push_to_present [OF Some]
    by (simp add: enqueue_single enqueued_def)
qed

lemma filter_distinct_key:
  "distinct (map f ys) \<Longrightarrow> length (filter (\<lambda>y. f y = p) ys) \<le> 1"
  by (induction ys) (auto simp: filter_empty_conv image_iff)

lemma entries_at_le_1: "unique_paths xs \<Longrightarrow> length (entries_at xs t p) \<le> 1"
proof (induction xs)
  case Nil
  then show ?case by (simp add: entries_at_def)
next
  case (Cons a xs)
  then have u: "unique_paths xs" by (simp add: unique_paths_def)
  show ?case
  proof (cases "to a = t")
    case True
    then have "filter (\<lambda>q. to q = t) xs = []"
      using Cons.prems by (auto simp: unique_paths_def filter_empty_conv image_iff)
    then show ?thesis using True Cons.prems filter_distinct_key [of "\<lambda>x. path (ufile x)" "entries a" p]
      by (simp add: entries_at_def unique_paths_def paths_of_def)
  next
    case False
    then show ?thesis using Cons.IH [OF u] by (simp add: entries_at_def)
  qed
qed

lemma entries_at_ge_1:
  "q \<in> set xs \<Longrightarrow> to q = t \<Longrightarrow> p \<in> set (paths_of (entries q)) \<Longrightarrow>
   1 \<le> length (entries_at xs t p)"
proof -
  assume a: "q \<in> set xs" "to q = t" "p \<in> set (paths_of (entries q))"
  then obtain y where "y \<in> set (entries q)" "path (ufile y) = p"
    by (auto simp: paths_of_def)
  then have "y \<in> set (entries_at xs t p)" using a by (auto simp: entries_at_def)
  then show ?thesis by (cases "entries_at xs t p") auto
qed

text \<open>
  C5: in every reachable state, enqueuing one entry whose relative path is already
  held by the queue of the destination leaves \<open>uploadState.qs\<close> as it is (whether the
  entry is the same object or another one of the same path); enqueuing an entry a
  second time changes nothing, and after it the queues of that destination hold at
  most one entry of its relative path: exactly one when the entry passes the accept
  policy (an entry that fails it is never queued).
\<close>

theorem enqueue_idempotent:
  assumes "reachable s"
  shows "(\<forall>q \<in> set (qs s). to q = t \<and> path (ufile x) \<in> set (paths_of (entries q)) \<longrightarrow>
            qs (step (Enqueue rt accept t [x]) s) = qs s) \<and>
         qs (step (Enqueue rt accept t [x]) (step (Enqueue rt accept t [x]) s)) =
           qs (step (Enqueue rt accept t [x]) s) \<and>
         length (entries_at (qs (step (Enqueue rt accept t [x]) (step (Enqueue rt accept t [x]) s)))
                   t (path (ufile x))) \<le> 1 \<and>
         (simulateBrowserAccept rt accept (ufile x) = Some True \<longrightarrow>
            length (entries_at (qs (step (Enqueue rt accept t [x]) (step (Enqueue rt accept t [x]) s)))
                      t (path (ufile x))) = 1)"
proof -
  have u: "unique_paths (qs s)" by (rule reachable_unique [OF assms])
  let ?s1 = "step (Enqueue rt accept t [x]) s"
  let ?s2 = "step (Enqueue rt accept t [x]) ?s1"
  have r1: "reachable ?s1" by (rule reachable_step [OF assms])
  have u1: "unique_paths (qs ?s1)" by (rule reachable_unique [OF r1])
  have r2: "reachable ?s2" by (rule reachable_step [OF r1])
  have u2: "unique_paths (qs ?s2)" by (rule reachable_unique [OF r2])
  have first: "qs ?s1 = qs s"
    if "q \<in> set (qs s)" "to q = t" "path (ufile x) \<in> set (paths_of (entries q))" for q
    using enqueue_existing [OF u that] .
  have same: "qs ?s2 = qs ?s1"
  proof (cases "simulateBrowserAccept rt accept (ufile x) = Some True")
    case True
    from enqueue_present [OF True, where t = t and s = s]
    obtain q where q: "q \<in> set (qs ?s1)" "to q = t" "path (ufile x) \<in> set (paths_of (entries q))"
      by blast
    show ?thesis using enqueue_existing [OF u1 q] .
  next
    case False
    then show ?thesis
      by (auto simp: enqueue_single emit_def split: option.splits bool.splits)
  qed
  have le: "length (entries_at (qs ?s2) t (path (ufile x))) \<le> 1"
    using entries_at_le_1 [OF u2] .
  have one: "length (entries_at (qs ?s2) t (path (ufile x))) = 1"
    if ok: "simulateBrowserAccept rt accept (ufile x) = Some True"
  proof -
    from enqueue_present [OF ok, where t = t and s = s]
    obtain q where q: "q \<in> set (qs ?s1)" "to q = t" "path (ufile x) \<in> set (paths_of (entries q))"
      by blast
    have "1 \<le> length (entries_at (qs ?s1) t (path (ufile x)))"
      using entries_at_ge_1 [OF q] .
    then show ?thesis using same le by simp
  qed
  show ?thesis using first same le one by blast
qed

lemma ex_enqueue_facts:
  "simulateBrowserAccept throwing None (ufile ex_A_again) = Some True"
  "path (ufile ex_A_again) = ''a.bin''"
  "path (ufile ex_A) = ''a.bin''"
  "paths_of [ex_A, ex_B] = [''a.bin'', ''b.bin'']"
  by (simp_all add: simulateBrowserAccept_def ex_A_again_def ex_A_def ex_B_def ex_paths paths_of_def)

theorem enqueue_idempotent_witness:
  "reachable ex_queued \<and> reachable init \<and>
   simulateBrowserAccept throwing None (ufile ex_A_again) = Some True \<and>
   qs (step (Enqueue throwing None ''/docs/'' [ex_A_again]) ex_queued) = qs ex_queued \<and>
   length (entries_at
     (qs (step (Enqueue throwing None ''/docs/'' [ex_A_again]) (step (Enqueue throwing None ''/docs/'' [ex_A_again]) ex_queued)))
     ''/docs/'' ''a.bin'') = 1 \<and>
   length (entries_at
     (qs (step (Enqueue throwing None ''/docs/'' [ex_A_again]) (step (Enqueue throwing None ''/docs/'' [ex_A_again]) init)))
     ''/docs/'' ''a.bin'') = 1"
proof -
  note t1 = enqueue_idempotent [OF ex_reachable(1), where t = "''/docs/''" and x = ex_A_again and rt = throwing and accept = None]
  note t2 = enqueue_idempotent [OF reachable_init, where t = "''/docs/''" and x = ex_A_again and rt = throwing and accept = None]
  have q: "\<lparr>to = ''/docs/'', entries = [ex_A, ex_B]\<rparr> \<in> set (qs ex_queued)"
    by (simp add: ex_queued_eq)
  have p: "to \<lparr>to = ''/docs/'', entries = [ex_A, ex_B]\<rparr> = ''/docs/'' \<and>
           path (ufile ex_A_again) \<in> set (paths_of (entries \<lparr>to = ''/docs/'', entries = [ex_A, ex_B]\<rparr>))"
    by (simp add: ex_enqueue_facts)
  have a: "qs (step (Enqueue throwing None ''/docs/'' [ex_A_again]) ex_queued) = qs ex_queued"
    by (rule t1 [THEN conjunct1, rule_format, OF q p])
  have b: "length (entries_at
     (qs (step (Enqueue throwing None ''/docs/'' [ex_A_again]) (step (Enqueue throwing None ''/docs/'' [ex_A_again]) ex_queued)))
     ''/docs/'' (path (ufile ex_A_again))) = 1"
    using t1 ex_enqueue_facts(1) by blast
  have c: "length (entries_at
     (qs (step (Enqueue throwing None ''/docs/'' [ex_A_again]) (step (Enqueue throwing None ''/docs/'' [ex_A_again]) init)))
     ''/docs/'' (path (ufile ex_A_again))) = 1"
    using t2 ex_enqueue_facts(1) by blast
  show ?thesis
    using a b c ex_reachable(1) reachable_init ex_enqueue_facts(1)
    unfolding ex_enqueue_facts(2) by blast
qed

section \<open>The accept policy and the filter of \<open>enqueue\<close>\<close>

lemma some_Some: "\<forall>p \<in> set ps. t p = Some (g p) \<Longrightarrow> some t ps = Some (list_ex g ps)"
proof (induction ps)
  case Nil
  then show ?case by simp
next
  case (Cons a ps)
  then show ?case by (cases "g a") simp_all
qed

lemma accept_all_zip:
  "accept_all rt a es = Some oks \<Longrightarrow> (x, b) \<in> set (zip es oks) \<Longrightarrow>
   simulateBrowserAccept rt a (ufile x) = Some b"
  by (induction es arbitrary: oks) (auto split: option.splits)

lemma accept_all_False:
  "accept_all rt a es = Some oks \<Longrightarrow>
   (False \<in> set oks) = (\<exists>x \<in> set es. simulateBrowserAccept rt a (ufile x) = Some False)"
  by (induction es arbitrary: oks) (auto split: option.splits)

lemma set_uniqBy_path: "set (uniqBy_path seen xs) \<subseteq> set xs"
  by (induction xs arbitrary: seen) auto

lemma push_to_entries:
  "push_to t es xs = Some xs' \<Longrightarrow> set (all_entries xs') \<subseteq> set (all_entries xs) \<union> set es"
proof (induction xs arbitrary: xs')
  case Nil
  then show ?case by simp
next
  case (Cons a xs)
  show ?case
  proof (cases "to a = t")
    case True
    then show ?thesis using Cons.prems by (auto simp: all_entries_def differenceBy_path_def)
  next
    case False
    then obtain z where z: "push_to t es xs = Some z" "xs' = a # z"
      using Cons.prems by auto
    have "set (all_entries z) \<subseteq> set (all_entries xs) \<union> set es" by (rule Cons.IH [OF z(1)])
    then show ?thesis using z(2) by (auto simp: all_entries_def)
  qed
qed

text \<open>
  C9 on the code, for three policies with one pattern each. The expression built
  from a pattern is searched for anywhere in the declared type, and only the first
  \<open>.\<close> and the first \<open>*\<close> of the pattern are rewritten. So the pattern \<open>image/svg+xml\<close>
  does not match the type \<open>image/svg+xml\<close>, which it equals; the pattern
  \<open>application/xml\<close> matches the type \<open>application/xml-dtd\<close>, which it does not equal,
  and the file is queued; and the pattern \<open>image/*\<close> matches the type \<open>x-image/png\<close>,
  of which \<open>image/\<close> is not a prefix. The runtime has no part in it.
\<close>

theorem accept_regexp_misses:
  "simulateBrowserAccept rt (Some ''image/svg+xml'') ex_svg = Some False \<and>
   spec_passes ''image/svg+xml'' ex_svg \<and>
   simulateBrowserAccept rt (Some ''application/xml'') ex_dtd = Some True \<and>
   \<not> spec_passes ''application/xml'' ex_dtd \<and>
   enqueue rt (Some ''application/xml'') ''/docs/'' [ex_up_dtd] init =
     Some (init\<lparr>qs := [\<lparr>to = ''/docs/'', entries = [ex_up_dtd]\<rparr>]\<rparr>) \<and>
   simulateBrowserAccept rt (Some ''image/*'') ex_odd = Some True \<and>
   \<not> spec_passes ''image/*'' ex_odd"
  by code_simp

text \<open>
  Without a policy, or with the empty one, every file passes. For a policy that is
  not empty and all of whose patterns have a leading \<open>.\<close>, a file passes if and only
  if its name ends with one of the patterns.
\<close>

theorem extension_policy:
  "simulateBrowserAccept rt None f = Some True \<and>
   simulateBrowserAccept rt (Some []) f = Some True \<and>
   (a \<noteq> [] \<and> list_all (prefix ''.'') (patterns a) \<longrightarrow>
      simulateBrowserAccept rt (Some a) f = Some (spec_passes a f))"
proof -
  have "simulateBrowserAccept rt (Some a) f = Some (spec_passes a f)"
    if "a \<noteq> []" "list_all (prefix ''.'') (patterns a)"
  proof -
    have "\<forall>p \<in> set (patterns a). pattern_test rt f p = Some (spec_pattern_matches f p)"
      using that(2) by (auto simp: list_all_iff pattern_test_def spec_pattern_matches_def)
    then have "some (pattern_test rt f) (patterns a) =
               Some (list_ex (spec_pattern_matches f) (patterns a))"
      by (rule some_Some)
    then show ?thesis
      using that(1) by (simp add: simulateBrowserAccept_def patterns_def spec_passes_def)
  qed
  then show ?thesis by (simp add: simulateBrowserAccept_def)
qed

lemma ex_accept_facts:
  "list_all (prefix ''.'') (patterns ''.png'')"
  "spec_passes ''.png'' ex_pdf = False"
  "list_all (prefix ''.'') (patterns ''.png | .pdf'')"
  "spec_passes ''.png | .pdf'' ex_pdf"
  "enqueue throwing (Some ''.png'') ''/docs/'' [ex_up_pdf, ex_up_png, ex_up_svg] init = Some ex_filtered"
  "all_entries (qs ex_filtered) = [ex_up_png]"
  "simulateBrowserAccept throwing (Some ''.png'') (ufile ex_up_pdf) = Some False"
  "log init = []"
  by code_simp+

theorem extension_policy_witness:
  "list_all (prefix ''.'') (patterns ''.png'') \<and>
   simulateBrowserAccept throwing (Some ''.png'') ex_pdf = Some False \<and>
   list_all (prefix ''.'') (patterns ''.png | .pdf'') \<and>
   simulateBrowserAccept throwing (Some ''.png | .pdf'') ex_pdf = Some True"
  using extension_policy [of throwing ex_pdf "''.png''"]
    extension_policy [of throwing ex_pdf "''.png | .pdf''"]
  by (simp add: ex_accept_facts)

text \<open>
  \<open>enqueue\<close> adds to the queues only entries of the batch that pass the test of the
  code, and it shows the notice of rejection once if some entry of the batch fails
  the test and not at all otherwise.
\<close>

theorem enqueue_filters:
  assumes "enqueue rt accept t es s = Some s'"
  shows "set (all_entries (qs s')) \<subseteq>
           set (all_entries (qs s)) \<union> {x \<in> set es. simulateBrowserAccept rt accept (ufile x) = Some True} \<and>
         log s' = log s @
           (if \<exists>x \<in> set es. simulateBrowserAccept rt accept (ufile x) = Some False
            then [AlertRejected] else [])"
proof -
  from assms obtain oks where oks: "accept_all rt accept es = Some oks"
    by (auto simp: enqueue_def split: option.splits)
  let ?s1 = "if False \<in> set oks then emit [AlertRejected] s else s"
  let ?kept = "uniqBy_path [] (map fst (filter snd (zip es oks)))"
  have q1: "qs ?s1 = qs s" by (simp add: emit_def)
  have l1: "log ?s1 = log s @ (if \<exists>x \<in> set es. simulateBrowserAccept rt accept (ufile x) = Some False
              then [AlertRejected] else [])"
    using accept_all_False [OF oks] by (simp add: emit_def)
  have k: "set ?kept \<subseteq> {x \<in> set es. simulateBrowserAccept rt accept (ufile x) = Some True}"
  proof
    fix x
    assume "x \<in> set ?kept"
    then have "x \<in> set (map fst (filter snd (zip es oks)))"
      using set_uniqBy_path [of "[]" "map fst (filter snd (zip es oks))"] by blast
    then have m: "(x, True) \<in> set (zip es oks)" by auto
    then have "x \<in> set es" by (rule set_zip_leftD)
    then show "x \<in> {x \<in> set es. simulateBrowserAccept rt accept (ufile x) = Some True}"
      using accept_all_zip [OF oks m] by simp
  qed
  have s': "s' = ?s1 \<or> s' = ?s1\<lparr>qs := qs s @ [\<lparr>to = t, entries = ?kept\<rparr>]\<rparr> \<or>
            (\<exists>xs'. push_to t ?kept (qs s) = Some xs' \<and> s' = ?s1\<lparr>qs := xs'\<rparr>)"
    using assms oks q1 by (auto simp: enqueue_def Let_def split: option.splits if_splits)
  have l: "log s' = log s @
           (if \<exists>x \<in> set es. simulateBrowserAccept rt accept (ufile x) = Some False
            then [AlertRejected] else [])"
    using s' l1 by auto
  have "qs s' = qs s \<or> qs s' = qs s @ [\<lparr>to = t, entries = ?kept\<rparr>] \<or>
        (\<exists>xs'. push_to t ?kept (qs s) = Some xs' \<and> qs s' = xs')"
    using s' q1 by auto
  then have "set (all_entries (qs s')) \<subseteq> set (all_entries (qs s)) \<union> set ?kept"
  proof (elim disjE exE conjE)
    assume "qs s' = qs s"
    then show ?thesis by auto
  next
    assume "qs s' = qs s @ [\<lparr>to = t, entries = ?kept\<rparr>]"
    then show ?thesis by (simp add: all_entries_def)
  next
    fix xs'
    assume "push_to t ?kept (qs s) = Some xs'" "qs s' = xs'"
    then show ?thesis using push_to_entries [of t ?kept "qs s" xs'] by simp
  qed
  then have "set (all_entries (qs s')) \<subseteq>
           set (all_entries (qs s)) \<union> {x \<in> set es. simulateBrowserAccept rt accept (ufile x) = Some True}"
    using k by blast
  then show ?thesis using l by blast
qed

theorem enqueue_filters_witness:
  "enqueue throwing (Some ''.png'') ''/docs/'' [ex_up_pdf, ex_up_png, ex_up_svg] init = Some ex_filtered \<and>
   all_entries (qs ex_filtered) = [ex_up_png] \<and>
   log ex_filtered = [AlertRejected]"
proof -
  have "\<exists>x \<in> set [ex_up_pdf, ex_up_png, ex_up_svg].
          simulateBrowserAccept throwing (Some ''.png'') (ufile x) = Some False"
    using ex_accept_facts(7) by simp
  then show ?thesis
    using enqueue_filters [OF ex_accept_facts(5)]
    by (simp add: ex_accept_facts)
qed

section \<open>The order of transfers\<close>

lemma subscriber_cases:
  "subscriber rnd s = s\<lparr>notificationChannel := [], handler := None\<rparr> \<or> subscriber rnd s = s \<or>
   (\<exists>q0 rest x xs. qs s = q0 # rest \<and> entries q0 = x # xs \<and> uploading s = None \<and> \<not> paused s \<and>
      subscriber rnd s = startUpload rnd x (to q0) 0 s)"
  by (auto simp: subscriber_def split: list.splits)

lemma unique_paths_distinct_entries:
  "unique_paths xs \<Longrightarrow> q \<in> set xs \<Longrightarrow> distinct (entries q)"
  by (auto simp: unique_paths_def list_all_iff paths_of_def distinct_map)

lemma unique_paths_same_to:
  "unique_paths xs \<Longrightarrow> q \<in> set xs \<Longrightarrow> q' \<in> set xs \<Longrightarrow> to q = to q' \<Longrightarrow> q = q'"
  by (auto simp: unique_paths_def distinct_map inj_on_def)

text \<open>
  The subscriber of the state, which is what starts transfers from the queue,
  leaves the queue as it is and starts nothing but the first entry of the first
  queue, and only when nothing is uploading and the queue is not paused; so in a
  reachable state it does not start \<open>b\<close> for the destination of a queue in which \<open>a\<close>
  stands before \<open>b\<close>. The completion of a request removes at most the first entry of
  the first queue.
\<close>

theorem scheduler_fifo:
  assumes "reachable s" and "q \<in> set (qs s)" and "entries q = pre @ a # mid @ b # post"
  shows "qs (subscriber rnd s) = qs s \<and>
         (subscriber rnd s = s\<lparr>notificationChannel := [], handler := None\<rparr> \<or> subscriber rnd s = s \<or>
          (\<exists>q0 rest x xs. qs s = q0 # rest \<and> entries q0 = x # xs \<and> uploading s = None \<and> \<not> paused s \<and>
             subscriber rnd s = startUpload rnd x (to q0) 0 s \<and> \<not> (x = b \<and> to q0 = to q))) \<and>
         (\<forall>i r st. qs (onloadend i r st s) = qs s \<or> qs (onloadend i r st s) = shift_head (qs s))"
proof -
  have u: "unique_paths (qs s)" by (rule reachable_unique [OF assms(1)])
  have d: "distinct (entries q)" by (rule unique_paths_distinct_entries [OF u assms(2)])
  have no: "\<not> (x = b \<and> to q0 = to q)" if "qs s = q0 # rest" "entries q0 = x # xs" for q0 rest x xs
  proof
    assume c: "x = b \<and> to q0 = to q"
    have "q0 \<in> set (qs s)" using that(1) by simp
    then have "q0 = q" using unique_paths_same_to [OF u _ assms(2)] c by blast
    then have "hd (entries q) = b" using that(2) c by simp
    then show False using d assms(3) by (cases pre) auto
  qed
  have "qs (subscriber rnd s) = qs s"
    by (simp add: subscriber_def startUpload_qs split: list.splits)
  then show ?thesis using subscriber_cases [of rnd s] no onloadend_qs by blast
qed

theorem scheduler_fifo_witness:
  "reachable ex_queued \<and> entries \<lparr>to = ''/docs/'', entries = [ex_A, ex_B]\<rparr> = [] @ ex_A # [] @ ex_B # [] \<and>
   qs (subscriber ''x'' ex_queued) = [\<lparr>to = ''/docs/'', entries = [ex_A, ex_B]\<rparr>] \<and>
   uploading (subscriber ''x'' ex_queued) = Some ex_A"
proof -
  have q: "\<lparr>to = ''/docs/'', entries = [ex_A, ex_B]\<rparr> \<in> set (qs ex_queued)"
    by (simp add: ex_queued_eq)
  have e: "entries \<lparr>to = ''/docs/'', entries = [ex_A, ex_B]\<rparr> = [] @ ex_A # [] @ ex_B # []"
    by simp
  have "qs (subscriber ''x'' ex_queued) = qs ex_queued"
    using scheduler_fifo [OF ex_reachable(1) q e, of "''x''"] by blast
  moreover have "uploading (subscriber ''x'' ex_queued) = Some ex_A"
    by (simp add: subscriber_def ex_queued_eq init_def startUpload_def Let_def)
  ultimately show ?thesis using ex_reachable(1) by (simp add: ex_queued_eq)
qed

text \<open>
  C4 on the code, for four files of one destination and no action of the user on
  the queue. The first file is done (run 0, status 200); the offer for the second
  file is accepted, which ends its request with status 0 (run 1), takes it out of
  the queue and sends the first file again (run 2); when that request completes,
  the third file is taken out of the queue, and the subscriber starts the fourth
  file (run 3). The third file, queued before the fourth one, was never started and
  has no completion.
\<close>

theorem stale_handoff_breaks_fifo:
  "qs ex_four = [\<lparr>to = ''/docs/'', entries = [ex_A, ex_B, ex_C, ex_D]\<rparr>] \<and>
   uploading ex_four = Some ex_A \<and>
   uploading ex_d_started = Some ex_D \<and>
   qs ex_d_started = [\<lparr>to = ''/docs/'', entries = [ex_D]\<rparr>] \<and>
   map c_toUpload (calls ex_d_started) = [ex_A, ex_B, ex_A, ex_D] \<and>
   map c_to (calls ex_d_started) = [''/docs/'', ''/docs/'', ''/docs/'', ''/docs/''] \<and>
   outcomes ex_d_started = [(0, 200), (1, 0), (2, 200)]"
  by code_simp

text \<open>
  The delete action of the dialog: on the entry that is uploading it ends the
  request with status 0, and the next entry is started; on an entry that is waiting
  it takes the entry out of its queue.
\<close>

lemma delete_action_examples:
  "qs ex_started = [\<lparr>to = ''/docs/'', entries = [ex_A, ex_B]\<rparr>] \<and>
   uploading ex_started = Some ex_A \<and>
   uploading ex_cancelled = Some ex_B \<and>
   outcomes ex_cancelled = [(0, 0)] \<and> done_count ex_cancelled = 0 \<and> errors ex_cancelled = 0 \<and>
   qs (step (DeleteEntry 0 ex_B) ex_started) = [\<lparr>to = ''/docs/'', entries = [ex_A]\<rparr>]"
  by code_simp

section \<open>The resume offer\<close>

lemma startUpload_new_call:
  "calls (startUpload rnd x t r s) ! length (calls s) =
     \<lparr>c_toUpload = x, c_to = t, c_resume = r, resuming = False, lastProgress = 0,
      sent_channel = (if notificationChannel s \<noteq> [] then notificationChannel s else ''upload-'' @ rnd),
      sent_comment = (case comment x of None \<Rightarrow> [] | Some c \<Rightarrow> c),
      sent_skipExisting = skipExisting s,
      sent_body = drop r (content (ufile x)),
      sent_filename = path (ufile x)\<rparr>"
  by (simp add: startUpload_def Let_def)

lemma startUpload_frame:
  "qs (startUpload rnd x t r s) = qs s"
  "done_count (startUpload rnd x t r s) = done_count s"
  "doneByte (startUpload rnd x t r s) = doneByte s"
  "errors (startUpload rnd x t r s) = errors s"
  "outcomes (startUpload rnd x t r s) = outcomes s"
  "uploading (startUpload rnd x t r s) = Some x"
  "req (startUpload rnd x t r s) = Some (length (calls s))"
  "req_live (startUpload rnd x t r s)"
  "length (calls (startUpload rnd x t r s)) = Suc (length (calls s))"
  by (simp_all add: startUpload_def Let_def)

text \<open>
  C1 on the code, for the second file of a queue cycle (3 bytes), with an offer of
  2 bytes that the user accepts: the handler is the closure of the run of the first
  file, so the second file leaves the queue and the first file is sent again from
  byte 2.
\<close>

theorem stale_handler_resumes_other_item:
  "uploading ex_stale_offer = Some ex_B \<and> fsize (ufile ex_B) = 3 \<and>
   offers ex_stale_offer = [\<lparr>o_handler = 0, o_uploading = ex_B, o_size = 2\<rparr>] \<and>
   qs ex_stale_offer = [\<lparr>to = ''/docs/'', entries = [ex_B]\<rparr>] \<and>
   qs ex_stale_resumed = [] \<and>
   uploading ex_stale_resumed = Some ex_A \<and>
   req ex_stale_resumed = Some 2 \<and>
   c_toUpload (calls ex_stale_resumed ! 2) = ex_A \<and>
   c_resume (calls ex_stale_resumed ! 2) = 2 \<and>
   sent_filename (calls ex_stale_resumed ! 2) = ''a.bin'' \<and>
   sent_body (calls ex_stale_resumed ! 2) = [3, 4, 5, 6, 7, 8]"
  by code_simp

text \<open>
  C8 on the code, for the second file of a queue cycle (3 bytes) and an offer of 5
  bytes: the size is compared with the 8 bytes of the first file, and the
  confirmation is shown.
\<close>

theorem stale_handler_compares_other_size:
  "uploading ex_b_active = Some ex_B \<and> fsize (ufile ex_B) = 3 \<and> log ex_b_active = [] \<and>
   log (step (Notification ''upload.resumable'' [(''b.bin'', 5)]) ex_b_active) = [ConfirmResume 5 8] \<and>
   offers (step (Notification ''upload.resumable'' [(''b.bin'', 5)]) ex_b_active) =
     [\<lparr>o_handler = 0, o_uploading = ex_B, o_size = 5\<rparr>]"
  by code_simp

text \<open>
  When the run that subscribed is the one that is uploading, and no status was
  pushed, accepting an offer of \<open>S\<close> bytes ends the request with status 0 without
  touching the queue or the counters, and starts a run for the same entry and
  destination with resume offset \<open>S\<close>, whose body is the file from byte \<open>S\<close> on and whose
  progress events publish \<open>partial = loaded + S\<close>.
\<close>

theorem resume_handoff_of_subscriber:
  assumes "req s = Some h" and "req_live s" and "h < length (calls s)" and "overrideStatus s = 0"
    and "uploading s = Some up" and "c_toUpload (calls s ! h) = up"
  shows "qs (resume_answer rnd \<lparr>o_handler = h, o_uploading = up, o_size = S\<rparr> True s) = qs s \<and>
         done_count (resume_answer rnd \<lparr>o_handler = h, o_uploading = up, o_size = S\<rparr> True s) = done_count s \<and>
         doneByte (resume_answer rnd \<lparr>o_handler = h, o_uploading = up, o_size = S\<rparr> True s) = doneByte s \<and>
         errors (resume_answer rnd \<lparr>o_handler = h, o_uploading = up, o_size = S\<rparr> True s) = errors s \<and>
         outcomes (resume_answer rnd \<lparr>o_handler = h, o_uploading = up, o_size = S\<rparr> True s) = outcomes s @ [(h, 0)] \<and>
         uploading (resume_answer rnd \<lparr>o_handler = h, o_uploading = up, o_size = S\<rparr> True s) = Some up \<and>
         req (resume_answer rnd \<lparr>o_handler = h, o_uploading = up, o_size = S\<rparr> True s) = Some (length (calls s)) \<and>
         req_live (resume_answer rnd \<lparr>o_handler = h, o_uploading = up, o_size = S\<rparr> True s) \<and>
         c_toUpload (calls (resume_answer rnd \<lparr>o_handler = h, o_uploading = up, o_size = S\<rparr> True s) ! length (calls s)) = up \<and>
         c_to (calls (resume_answer rnd \<lparr>o_handler = h, o_uploading = up, o_size = S\<rparr> True s) ! length (calls s)) = c_to (calls s ! h) \<and>
         c_resume (calls (resume_answer rnd \<lparr>o_handler = h, o_uploading = up, o_size = S\<rparr> True s) ! length (calls s)) = S \<and>
         sent_body (calls (resume_answer rnd \<lparr>o_handler = h, o_uploading = up, o_size = S\<rparr> True s) ! length (calls s)) =
           drop S (content (ufile up)) \<and>
         partial (transport_progress loaded tot (resume_answer rnd \<lparr>o_handler = h, o_uploading = up, o_size = S\<rparr> True s)) =
           loaded + S"
proof -
  let ?s1 = "s\<lparr>calls := (calls s)[h := (calls s ! h)\<lparr>resuming := True\<rparr>]\<rparr>"
  let ?s2 = "close_last (?s1\<lparr>req_live := False, outcomes := outcomes s @ [(h, 0)]\<rparr>)"
  have a: "abortCurrentUpload ?s1 = ?s2"
    using assms(1-4) by (simp add: abortCurrentUpload_def onloadend_4 effective_status_def Let_def close_last_frame)
  have r: "resume_answer rnd \<lparr>o_handler = h, o_uploading = up, o_size = S\<rparr> True s =
           startUpload rnd up (c_to (calls s ! h)) S ?s2"
    using assms(5,6) a by (simp add: resume_answer_def Let_def)
  have l: "length (calls ?s2) = length (calls s)" by (simp add: close_last_frame)
  show ?thesis
    unfolding r
    using startUpload_new_call [of rnd up "c_to (calls s ! h)" S ?s2] l
    by (simp add: startUpload_frame close_last_frame close_last_def emit_def
          transport_progress_def onprogress_def Let_def)
qed

lemma ex_offered_facts:
  "req ex_offered = Some 0" "req_live ex_offered" "length (calls ex_offered) = 1"
  "overrideStatus ex_offered = 0" "uploading ex_offered = Some ex_A"
  "c_toUpload (calls ex_offered ! 0) = ex_A" "c_to (calls ex_offered ! 0) = ''/docs/''"
  "offers ex_offered = [\<lparr>o_handler = 0, o_uploading = ex_A, o_size = 5\<rparr>]"
  "qs ex_offered = [\<lparr>to = ''/docs/'', entries = [ex_A, ex_B]\<rparr>]"
  "content (ufile ex_A) = [1, 2, 3, 4, 5, 6, 7, 8]"
  by code_simp+

theorem resume_handoff_of_subscriber_witness:
  "req ex_offered = Some 0 \<and> req_live ex_offered \<and> 0 < length (calls ex_offered) \<and>
   overrideStatus ex_offered = 0 \<and> uploading ex_offered = Some ex_A \<and>
   c_toUpload (calls ex_offered ! 0) = ex_A \<and>
   qs (resume_answer ''z'' \<lparr>o_handler = 0, o_uploading = ex_A, o_size = 5\<rparr> True ex_offered) =
     [\<lparr>to = ''/docs/'', entries = [ex_A, ex_B]\<rparr>] \<and>
   sent_body (calls (resume_answer ''z'' \<lparr>o_handler = 0, o_uploading = ex_A, o_size = 5\<rparr> True ex_offered) ! 1) =
     [6, 7, 8] \<and>
   partial (transport_progress 0 7 (resume_answer ''z'' \<lparr>o_handler = 0, o_uploading = ex_A, o_size = 5\<rparr> True ex_offered)) = 5"
  using resume_handoff_of_subscriber [of ex_offered 0 ex_A "''z''" 5 0 7]
  by (simp add: ex_offered_facts)

text \<open>
  When the run that subscribed is the one that is uploading, an offer larger than
  the file changes nothing.
\<close>

theorem excessive_offer_ignored_by_subscriber:
  assumes "c_toUpload (calls s ! h) = up" and "map_of data (path (ufile up)) = Some sz"
    and "sz > fsize (ufile up)"
  shows "on_resumable h data up s = s"
  using assms by (simp add: on_resumable_def Let_def)

lemma ex_sizes: "fsize (ufile ex_A) = 8" "fsize (ufile ex_B) = 3"
  by code_simp+

theorem excessive_offer_ignored_by_subscriber_witness:
  "c_toUpload (calls ex_started ! 0) = ex_A \<and> map_of [(''a.bin'', 9)] (path (ufile ex_A)) = Some 9 \<and>
   9 > fsize (ufile ex_A) \<and> on_resumable 0 [(''a.bin'', 9)] ex_A ex_started = ex_started"
  using excessive_offer_ignored_by_subscriber [of ex_started 0 ex_A "[(''a.bin'', 9)]" 9]
  by (simp add: ex_started_facts ex_enqueue_facts ex_sizes)

end
